theory Spec2Isabelle
  imports Main "HOL-Library.Word"
begin

unbundle bit_operations_syntax

section \<open>The bit cache (right in, left out)\<close>

type_synonym byte = "8 word"

text \<open>
  The 64-bit shift register of the bit streamers together with the number of
  valid bits. The valid bits are the high \<open>fillLevel\<close> bits of the register.
\<close>

record BitStreamerCache =
  cache :: "64 word"
  fillLevel :: nat

definition emptyCache :: BitStreamerCache where
  "emptyCache = \<lparr>cache = 0, fillLevel = 0\<rparr>"

text \<open>
  Modelled from the spec: the cache primitives \<open>push\<close>, \<open>peek\<close> and \<open>skip\<close> live
  in io/BitStreamer.h, which is not among the sources. New bits enter below
  the valid bits (the low end) and are extracted from the most significant
  valid position; the valid bits are kept left-aligned, as the comment in
  BitStreamerJPEG::fillCache says ("all the fillLevel bits in cache are all
  high bits").
\<close>

definition push :: "BitStreamerCache \<Rightarrow> 64 word \<Rightarrow> nat \<Rightarrow> BitStreamerCache" where
  "push c bits count =
     \<lparr>cache = cache c OR push_bit (64 - fillLevel c - count) bits,
      fillLevel = fillLevel c + count\<rparr>"

definition peek :: "BitStreamerCache \<Rightarrow> nat \<Rightarrow> 32 word" where
  "peek c count = ucast (drop_bit (64 - count) (cache c))"

definition skip :: "BitStreamerCache \<Rightarrow> nat \<Rightarrow> BitStreamerCache" where
  "skip c count = \<lparr>cache = push_bit count (cache c), fillLevel = fillLevel c - count\<rparr>"

text \<open>The cache invariant: at most 64 valid bits, and no bit set below them.\<close>

definition cache_inv :: "BitStreamerCache \<Rightarrow> bool" where
  "cache_inv c \<longleftrightarrow> fillLevel c \<le> 64 \<and> take_bit (64 - fillLevel c) (cache c) = 0"

section \<open>BitStreamerJPEG::fillCache\<close>

definition getBE32 :: "byte list \<Rightarrow> 32 word" where
  "getBE32 d = push_bit 24 (ucast (d ! 0)) OR push_bit 16 (ucast (d ! 1))
               OR push_bit 8 (ucast (d ! 2)) OR ucast (d ! 3)"

text \<open>
  The byte-by-byte loop of fillCache. The first argument counts the iterations
  that are left (the source runs \<open>i\<close> from 0 to 3), \<open>p\<close> is the number of input
  bytes consumed so far.
\<close>

fun fillCache_loop :: "byte list \<Rightarrow> nat \<Rightarrow> nat \<Rightarrow> BitStreamerCache \<Rightarrow> nat \<times> BitStreamerCache" where
  "fillCache_loop prefetch 0 p c = (p, c)"
| "fillCache_loop prefetch (Suc n) p c =
     (let c0 = prefetch ! (p + 0);
          c1 = push c (ucast c0) 8
      in if c0 \<noteq> 0xFF then fillCache_loop prefetch n (p + 1) c1
         else let cn = prefetch ! (p + 1)
              in if cn = 0x00 then fillCache_loop prefetch n (p + 2) c1
                 else let lvl = fillLevel c1 - 8
                      in (p, \<lparr>cache = cache c1 AND NOT (drop_bit lvl (- 1)), fillLevel = 64\<rparr>))"

definition fillCache :: "BitStreamerCache \<Rightarrow> byte list \<Rightarrow> nat \<times> BitStreamerCache" where
  "fillCache c inp =
     (let prefetch = take 8 inp;
          speculativeOptimisticCache = push c (ucast (getBE32 prefetch)) 32
      in if list_all (\<lambda>b. b \<noteq> 0xFF) (take 4 prefetch)
         then (4, speculativeOptimisticCache)
         else fillCache_loop prefetch 4 0 c)"

section \<open>The reader state shared by the tags\<close>

text \<open>
  Modelled from the spec: the generic reader (io/BitStreamer.h: the input view,
  the consumed-byte position, \<open>fill\<close>, \<open>getBits\<close>, \<open>getBitsNoFill\<close>, \<open>skipBits\<close>,
  \<open>getInputPosition\<close>) is not among the sources. A reader holds the borrowed
  byte source, the count of consumed bytes and its bit cache.
\<close>

record BitStreamer =
  input :: "byte list"
  pos :: nat
  bcache :: BitStreamerCache

definition BitStreamer_init :: "byte list \<Rightarrow> BitStreamer" where
  "BitStreamer_init d = \<lparr>input = d, pos = 0, bcache = emptyCache\<rparr>"

text \<open>
  Modelled from the spec: a fill step may look at \<open>MaxProcessBytes\<close> bytes from
  the current position; the bytes behind the logical length belong to the
  tail padding, whose content is ignored. They are read as zero here; results
  that concern the padding take the padded buffer as the byte source.
\<close>

definition byte_at :: "byte list \<Rightarrow> nat \<Rightarrow> byte" where
  "byte_at d i = (if i < length d then d ! i else 0)"

definition getInput :: "nat \<Rightarrow> BitStreamer \<Rightarrow> byte list" where
  "getInput maxProcessBytes s = map (\<lambda>i. byte_at (input s) (pos s + i)) [0..<maxProcessBytes]"

definition getInputPosition :: "BitStreamer \<Rightarrow> nat" where
  "getInputPosition s = pos s"

definition getFillLevel :: "BitStreamer \<Rightarrow> nat" where
  "getFillLevel s = fillLevel (bcache s)"

definition getBitsNoFill :: "nat \<Rightarrow> BitStreamer \<Rightarrow> 32 word \<times> BitStreamer" where
  "getBitsNoFill nbits s = (peek (bcache s) nbits, s\<lparr>bcache := skip (bcache s) nbits\<rparr>)"

section \<open>The JPEG reader\<close>

text \<open>
  Modelled from the spec: one invocation of the tag's fillCache by the generic
  reader, on the \<open>MaxProcessBytes\<close> = 8 bytes at the current position; the
  position advances by the number of bytes fillCache reports as consumed.
\<close>

definition fillStep_JPEG :: "BitStreamer \<Rightarrow> BitStreamer" where
  "fillStep_JPEG s =
     (let r = fillCache (bcache s) (getInput 8 s)
      in s\<lparr>pos := pos s + fst r, bcache := snd r\<rparr>)"

lemma fillCache_loop_level:
  "fillLevel (snd (fillCache_loop d n p c)) = fillLevel c + 8 * n
   \<or> fillLevel (snd (fillCache_loop d n p c)) = 64"
proof (induction n arbitrary: p c)
  case 0
  show ?case by simp
next
  case (Suc n)
  have l: "fillLevel (push c (ucast (d ! p)) 8) = fillLevel c + 8"
    by (simp add: push_def)
  show ?case
    using Suc.IH [of "p + 1" "push c (ucast (d ! p)) 8"]
          Suc.IH [of "p + 2" "push c (ucast (d ! p)) 8"]
    by (auto simp: Let_def l)
qed

lemma fillCache_level:
  "fillLevel (snd (fillCache c inp)) = fillLevel c + 32 \<or> fillLevel (snd (fillCache c inp)) = 64"
  using fillCache_loop_level [of "take 8 inp" 4 0 c]
  by (auto simp: fillCache_def Let_def push_def)

text \<open>
  Modelled from the spec: \<open>fill(n)\<close> (n \<le> 32) invokes the tag's fillCache as
  often as needed until at least n bits are cached.
\<close>

function fill_JPEG :: "nat \<Rightarrow> BitStreamer \<Rightarrow> BitStreamer" where
  "fill_JPEG nbits s =
     (if nbits \<le> 32 \<and> fillLevel (bcache s) < nbits then fill_JPEG nbits (fillStep_JPEG s) else s)"
  by pat_completeness auto

termination
proof (relation "measure (\<lambda>(nbits, s). nbits - fillLevel (bcache s))")
  show "wf (measure (\<lambda>(nbits, s). nbits - fillLevel (bcache s)))" by simp
next
  fix nbits :: nat and s :: BitStreamer
  assume a: "nbits \<le> 32 \<and> fillLevel (bcache s) < nbits"
  have "fillLevel (bcache (fillStep_JPEG s)) \<ge> 32"
    using fillCache_level [of "bcache s" "getInput 8 s"]
    by (auto simp: fillStep_JPEG_def Let_def)
  with a show "((nbits, fillStep_JPEG s), (nbits, s))
        \<in> measure (\<lambda>(nbits, s). nbits - fillLevel (bcache s))"
    by simp
qed

declare fill_JPEG.simps [simp del]

definition getBits_JPEG :: "nat \<Rightarrow> BitStreamer \<Rightarrow> 32 word \<times> BitStreamer" where
  "getBits_JPEG nbits s = getBitsNoFill nbits (fill_JPEG nbits s)"

text \<open>BitStreamerJPEG::getStreamPosition: the number of bytes consumed.\<close>

definition getStreamPosition :: "BitStreamer \<Rightarrow> nat" where
  "getStreamPosition s = getInputPosition s"

text \<open>A run of \<open>getBits\<close> calls: the values read and the reader afterwards.\<close>

fun getBitsMany_JPEG :: "nat list \<Rightarrow> BitStreamer \<Rightarrow> 32 word list \<times> BitStreamer" where
  "getBitsMany_JPEG [] s = ([], s)"
| "getBitsMany_JPEG (n # ns) s =
     (let r = getBits_JPEG n s; rs = getBitsMany_JPEG ns (snd r)
      in (fst r # fst rs, snd rs))"

section \<open>The word-swapped (MSB16) reader\<close>

text \<open>
  Modelled from the spec: bitstreams/BitStreamerMSB16.h is not among the
  sources. The input is consumed two bytes at a time, and each two-byte unit is
  byte-reversed before it is inserted, that is, it enters the cache as the
  little-endian 16-bit value of the two bytes. One fill step takes one drain
  unit of the writer: two such units, 4 bytes.
\<close>

definition getLE16 :: "byte list \<Rightarrow> nat \<Rightarrow> 64 word" where
  "getLE16 d i = push_bit 8 (ucast (d ! (i + 1))) OR ucast (d ! i)"

definition fillCache_MSB16 :: "BitStreamerCache \<Rightarrow> byte list \<Rightarrow> nat \<times> BitStreamerCache" where
  "fillCache_MSB16 c inp = (4, push (push c (getLE16 inp 0) 16) (getLE16 inp 2) 16)"

definition MinLoadStepByteMultiple_MSB16 :: nat where
  "MinLoadStepByteMultiple_MSB16 = 2"

definition fillStep_MSB16 :: "BitStreamer \<Rightarrow> BitStreamer" where
  "fillStep_MSB16 s =
     (let r = fillCache_MSB16 (bcache s) (getInput 4 s)
      in s\<lparr>pos := pos s + fst r, bcache := snd r\<rparr>)"

function fill_MSB16 :: "nat \<Rightarrow> BitStreamer \<Rightarrow> BitStreamer" where
  "fill_MSB16 nbits s =
     (if nbits \<le> 32 \<and> fillLevel (bcache s) < nbits then fill_MSB16 nbits (fillStep_MSB16 s) else s)"
  by pat_completeness auto

termination
  by (relation "measure (\<lambda>(nbits, s). nbits - fillLevel (bcache s))")
     (auto simp: fillStep_MSB16_def fillCache_MSB16_def Let_def push_def)

declare fill_MSB16.simps [simp del]

definition getBits_MSB16 :: "nat \<Rightarrow> BitStreamer \<Rightarrow> 32 word \<times> BitStreamer" where
  "getBits_MSB16 nbits s = getBitsNoFill nbits (fill_MSB16 nbits s)"

definition skipBits_MSB16 :: "nat \<Rightarrow> BitStreamer \<Rightarrow> BitStreamer" where
  "skipBits_MSB16 nbits s = snd (getBits_MSB16 nbits s)"

fun getBitsMany_MSB16 :: "nat list \<Rightarrow> BitStreamer \<Rightarrow> 32 word list \<times> BitStreamer" where
  "getBitsMany_MSB16 [] s = ([], s)"
| "getBitsMany_MSB16 (n # ns) s =
     (let r = getBits_MSB16 n s; rs = getBitsMany_MSB16 ns (snd r)
      in (fst r # fst rs, snd rs))"

section \<open>The word-swapped (MSB16) vacuumer\<close>

text \<open>
  Modelled from the spec: bitstreams/BitVacuumerMSB16.h and the generic
  vacuumer are not among the sources. \<open>put\<close> appends the bits to the cache and
  drains a complete unit as soon as enough bits have accumulated; the drain
  unit is 32 bits, written as two byte-reversed 16-bit units (this is what the
  expected outputs of the test corpus show). Finalization pads a remaining
  partial unit with zero bits and drains it; without pending bits it writes
  nothing.
\<close>

record BitVacuumer =
  vcache :: BitStreamerCache
  out :: "byte list"

definition BitVacuumer_init :: BitVacuumer where
  "BitVacuumer_init = \<lparr>vcache = emptyCache, out = []\<rparr>"

definition chunk_bytes :: "32 word \<Rightarrow> byte list" where
  "chunk_bytes chunk =
     [ucast (drop_bit 16 chunk), ucast (drop_bit 24 chunk), ucast chunk, ucast (drop_bit 8 chunk)]"

definition drainImpl :: "BitVacuumer \<Rightarrow> BitVacuumer" where
  "drainImpl v =
     \<lparr>vcache = skip (vcache v) 32, out = out v @ chunk_bytes (peek (vcache v) 32)\<rparr>"

definition drain :: "BitVacuumer \<Rightarrow> BitVacuumer" where
  "drain v = (if fillLevel (vcache v) < 32 then v else drainImpl v)"

definition put :: "BitVacuumer \<Rightarrow> 32 word \<Rightarrow> nat \<Rightarrow> BitVacuumer" where
  "put v bits count = drain (v\<lparr>vcache := push (vcache v) (ucast bits) count\<rparr>)"

definition flush :: "BitVacuumer \<Rightarrow> BitVacuumer" where
  "flush v =
     (let v1 = drain v
      in if fillLevel (vcache v1) = 0 then v1
         else drain (v1\<lparr>vcache := push (vcache v1) 0 (32 - fillLevel (vcache v1))\<rparr>))"

section \<open>The tests of the MSB16 vacuumer\<close>

type_synonym RecepieType = "(32 word \<times> nat) list"

definition synthesizeBitstream :: "RecepieType \<Rightarrow> byte list" where
  "synthesizeBitstream recepie =
     out (flush (foldl (\<lambda>bv e. put bv (fst e) (snd e)) BitVacuumer_init recepie))"

text \<open>
  The Dissolution test reads the lengths of the recipe back: before each entry
  it fills 32 bits, then takes \<open>len\<close> bits without filling, or 0 when \<open>len\<close> is 0.
\<close>

fun Dissolution :: "BitStreamer \<Rightarrow> nat list \<Rightarrow> 32 word list" where
  "Dissolution bs [] = []"
| "Dissolution bs (len # lens) =
     (let bs1 = fill_MSB16 32 bs;
          r = (if len \<noteq> 0 then getBitsNoFill len bs1 else (0, bs1))
      in fst r # Dissolution (snd r) lens)"

section \<open>Position and rebase protocol\<close>

text \<open>
  Modelled from the spec: bitstreams/BitStreamPosition.h is not among the
  sources. The internal position is the consumed-byte count with the cache
  fill level; the external one is a byte offset with a bit offset in [0,8)
  that address the same logical read point, the bit
  \<open>8 * inputBytePos - cacheFillLevel\<close> of the stream. (The DependencyBreaking
  test calls the conversion \<open>getAsByteStreamPosition\<close>.)
\<close>

record InternalPosition =
  inputBytePos :: nat
  cacheFillLevel :: nat

record ExternalPosition =
  bytePos :: nat
  subByteBitOffset :: nat

definition save :: "BitStreamer \<Rightarrow> InternalPosition" where
  "save s = \<lparr>inputBytePos = getInputPosition s, cacheFillLevel = getFillLevel s\<rparr>"

definition toExternal :: "InternalPosition \<Rightarrow> ExternalPosition" where
  "toExternal p =
     (let bitPos = 8 * inputBytePos p - cacheFillLevel p
      in \<lparr>bytePos = bitPos div 8, subByteBitOffset = bitPos mod 8\<rparr>)"

text \<open>
  The rebased reader of the DependencyBreaking test: a fresh reader over the
  buffer cropped at \<open>bytePos\<close>, which skips the bit offset when it is not 0.
\<close>

definition rebased :: "byte list \<Rightarrow> ExternalPosition \<Rightarrow> BitStreamer" where
  "rebased d e =
     (let bs = BitStreamer_init (drop (bytePos e) d)
      in if subByteBitOffset e \<noteq> 0 then skipBits_MSB16 (subByteBitOffset e) bs else bs)"

text \<open>
  An external position addresses the logical read point of an internal one:
  the bit \<open>8 * inputBytePos - cacheFillLevel\<close> of the stream.
\<close>

definition addresses :: "ExternalPosition \<Rightarrow> InternalPosition \<Rightarrow> bool" where
  "addresses e p \<longleftrightarrow>
     8 * bytePos e + subByteBitOffset e + cacheFillLevel p = 8 * inputBytePos p"

section \<open>OrfDecoder::decodeRawInternal\<close>

text \<open>
  The values decodeRawInternal reads from the raw IFD: the compression, the
  strip offsets and byte counts (a TIFF entry holds \<open>count\<close> values), and the
  image dimensions.
\<close>

record RawIFD =
  COMPRESSION :: "32 word"
  STRIPOFFSETS :: "32 word list"
  STRIPBYTECOUNTS :: "32 word list"
  IMAGEWIDTH :: "32 word"
  IMAGELENGTH :: "32 word"

datatype RawDecoderException =
  UnsupportedCompression
  | ByteCountMismatch
  | EntryOutOfBounds
  | TruncatedFile
  | UnexpectedDimensions

text \<open>What decodeRawInternal goes on to construct once its checks have passed.\<close>

datatype Decompression =
  DecodeUncompressed "32 word" "32 word" "32 word" "32 word"
  | OlympusDecompress "32 word"

text \<open>
  Modelled from the spec: Buffer::isValid (io/Buffer.h) is not among the
  sources; the declared range of \<open>count\<close> bytes at \<open>offset\<close> lies inside the
  buffer of the given size.
\<close>

definition isValid :: "nat \<Rightarrow> 32 word \<Rightarrow> 32 word \<Rightarrow> bool" where
  "isValid fileSize offset count \<longleftrightarrow> unat offset + unat count \<le> fileSize"

text \<open>
  Modelled from the spec: TiffEntry::getU32 (tiff/TiffEntry.h) is not among
  the sources; reading a value an entry does not hold fails.
\<close>

definition getU32 :: "32 word list \<Rightarrow> nat \<Rightarrow> RawDecoderException + 32 word" where
  "getU32 e i = (if i < length e then Inr (e ! i) else Inl EntryOutOfBounds)"

text \<open>The loop that adds the strip byte counts up in a \<open>uint32\<close>.\<close>

definition stripSize :: "32 word list \<Rightarrow> 32 word" where
  "stripSize counts = foldl (\<lambda>size c. size + c) 0 counts"

definition decodeRawInternal :: "nat \<Rightarrow> bool \<Rightarrow> RawIFD \<Rightarrow> RawDecoderException + Decompression" where
  "decodeRawInternal fileSize force_uncompressed raw =
     (if 1 \<noteq> COMPRESSION raw then Inl UnsupportedCompression
      else let offsets = STRIPOFFSETS raw; counts = STRIPBYTECOUNTS raw
      in if length counts \<noteq> length offsets then Inl ByteCountMismatch
      else case getU32 offsets 0 of Inl e \<Rightarrow> Inl e
      | Inr off \<Rightarrow>
          let size = stripSize counts
          in if \<not> isValid fileSize off size then Inl TruncatedFile
          else let width = IMAGEWIDTH raw; height = IMAGELENGTH raw
          in if width = 0 \<or> height = 0 \<or> width mod 2 \<noteq> 0 \<or> width > 9280 \<or> height > 6932
             then Inl UnexpectedDimensions
             else if length offsets \<noteq> 1 \<or> force_uncompressed
                  then Inr (DecodeUncompressed off width height size)
                  else Inr (OlympusDecompress off))"

section \<open>Bit lists and the stuffed form of data bytes\<close>

text \<open>
  The \<open>n\<close> low bits of a word, most significant first, and the valid bits of
  a cache in the order in which they are read.
\<close>

definition bitsOf :: "nat \<Rightarrow> 'a::len word \<Rightarrow> bool list" where
  "bitsOf n w = map (\<lambda>j. bit w (n - 1 - j)) [0..<n]"

definition cbits :: "BitStreamerCache \<Rightarrow> bool list" where
  "cbits c = map (\<lambda>j. bit (cache c) (63 - j)) [0..<fillLevel c]"

definition ztake :: "nat \<Rightarrow> bool list \<Rightarrow> bool list" where
  "ztake k xs = take k (xs @ replicate k False)"

definition stuff :: "byte list \<Rightarrow> byte list" where
  "stuff bs = concat (map (\<lambda>b. if b = 0xFF then [0xFF, 0x00] else [b]) bs)"

definition pushBytes :: "BitStreamerCache \<Rightarrow> byte list \<Rightarrow> BitStreamerCache" where
  "pushBytes c bs = foldl (\<lambda>c b. push c (ucast b) 8) c bs"

definition at_marker :: "BitStreamer \<Rightarrow> bool" where
  "at_marker s \<longleftrightarrow> cache_inv (bcache s) \<and> byte_at (input s) (pos s) = 0xFF
                  \<and> byte_at (input s) (pos s + 1) \<noteq> 0"

section \<open>The bit stream denoted by word-swapped bytes\<close>

definition swap16 :: "nat \<Rightarrow> nat" where
  "swap16 q = (if even q then q + 1 else q - 1)"

text \<open>Bit \<open>k\<close> of the logical stream stored in the bytes \<open>d\<close>.\<close>

definition sbit16 :: "byte list \<Rightarrow> nat \<Rightarrow> bool" where
  "sbit16 d k = bit (byte_at d (swap16 (k div 8))) (7 - k mod 8)"

definition sbits16 :: "byte list \<Rightarrow> nat \<Rightarrow> nat \<Rightarrow> bool list" where
  "sbits16 d n len = map (sbit16 d) [n..<n + len]"

text \<open>
  A reader over \<open>d\<close> stands at bit \<open>n\<close> of the stream: its valid cache bits are
  the stream bits from \<open>n\<close> up to the consumed bytes.
\<close>

definition rd_inv :: "byte list \<Rightarrow> BitStreamer \<Rightarrow> nat \<Rightarrow> bool" where
  "rd_inv d s n \<longleftrightarrow> input s = d \<and> cache_inv (bcache s) \<and> even (pos s)
      \<and> n + fillLevel (bcache s) = 8 * pos s
      \<and> cbits (bcache s) = sbits16 d n (fillLevel (bcache s))"

section \<open>The bits written by the vacuumer\<close>

text \<open>The bits a recipe asks to write, in order.\<close>

definition recipe_bits :: "RecepieType \<Rightarrow> bool list" where
  "recipe_bits recepie = concat (map (\<lambda>e. bitsOf (snd e) (fst e)) recepie)"

definition recipe_ok :: "RecepieType \<Rightarrow> bool" where
  "recipe_ok recepie \<longleftrightarrow> (\<forall>e\<in>set recepie. snd e \<le> 32 \<and> unat (fst e) < 2 ^ snd e)"

text \<open>
  The writer has written the bits \<open>W\<close>: those drained are the stream bits of
  its output and the rest is pending in its cache, less than one unit.
\<close>

definition wr_inv :: "BitVacuumer \<Rightarrow> bool list \<Rightarrow> bool" where
  "wr_inv v W \<longleftrightarrow> cache_inv (vcache v) \<and> fillLevel (vcache v) < 32 \<and> 4 dvd length (out v)
      \<and> sbits16 (out v) 0 (8 * length (out v)) @ cbits (vcache v) = W"

section \<open>Truncated strip data\<close>

text \<open>
  The strip data declared by the IFD, the byte counts added up from the first
  strip offset, does not fit into a file of the given size.
\<close>

definition declared_truncated :: "nat \<Rightarrow> RawIFD \<Rightarrow> bool" where
  "declared_truncated fileSize raw \<longleftrightarrow>
     (case STRIPOFFSETS raw of [] \<Rightarrow> False
      | off # _ \<Rightarrow> fileSize < unat off + sum_list (map unat (STRIPBYTECOUNTS raw)))"

section \<open>Properties of the bit cache\<close>

lemma cache_inv_bit: "cache_inv c \<Longrightarrow> bit (cache c) i \<Longrightarrow> 64 - fillLevel c \<le> i"
proof (rule ccontr)
  assume inv: "cache_inv c" and b: "bit (cache c) i" and "\<not> 64 - fillLevel c \<le> i"
  then have "i < 64 - fillLevel c" by simp
  with b have "bit (take_bit (64 - fillLevel c) (cache c)) i"
    by (simp add: bit_take_bit_iff)
  with inv show False by (simp add: cache_inv_def)
qed

lemma cache_invI:
  assumes "fillLevel c \<le> 64" "\<And>i. bit (cache c) i \<Longrightarrow> 64 - fillLevel c \<le> i"
  shows "cache_inv c"
proof -
  have "take_bit (64 - fillLevel c) (cache c) = 0"
  proof (rule bit_eqI)
    fix i show "bit (take_bit (64 - fillLevel c) (cache c)) i = bit (0 :: 64 word) i"
      using assms(2) [of i] by (auto simp: bit_take_bit_iff)
  qed
  with assms(1) show ?thesis by (simp add: cache_inv_def)
qed

lemma take_bit_id_bit: "take_bit n x = x \<Longrightarrow> bit (x :: 'a::len word) i \<Longrightarrow> i < n"
  by (metis bit_take_bit_iff)

lemma bit_push:
  "bit (cache (push c x n)) i \<longleftrightarrow>
     bit (cache c) i \<or> (64 - fillLevel c - n \<le> i \<and> i < 64 \<and> bit x (i - (64 - fillLevel c - n)))"
  by (auto simp: push_def bit_or_iff bit_push_bit_iff dest: bit_imp_le_length)

lemma push_inv:
  assumes "cache_inv c" "fillLevel c + n \<le> 64" "take_bit n x = x"
  shows "cache_inv (push c x n)"
proof (rule cache_invI)
  show "fillLevel (push c x n) \<le> 64" using assms(2) by (simp add: push_def)
next
  fix i assume "bit (cache (push c x n)) i"
  then consider "bit (cache c) i" | "64 - fillLevel c - n \<le> i"
    by (auto simp: bit_push)
  then show "64 - fillLevel (push c x n) \<le> i"
  proof cases
    case 1
    from cache_inv_bit [OF assms(1) this] show ?thesis by (simp add: push_def)
  next
    case 2
    then show ?thesis by (simp add: push_def)
  qed
qed

lemma cbits_push:
  assumes "cache_inv c" "fillLevel c + n \<le> 64" "take_bit n x = x"
  shows "cbits (push c x n) = cbits c @ bitsOf n x"
proof (rule nth_equalityI)
  show "length (cbits (push c x n)) = length (cbits c @ bitsOf n x)"
    by (simp add: cbits_def bitsOf_def push_def)
next
  fix j assume "j < length (cbits (push c x n))"
  then have j: "j < fillLevel c + n" by (simp add: cbits_def push_def)
  show "cbits (push c x n) ! j = (cbits c @ bitsOf n x) ! j"
  proof (cases "j < fillLevel c")
    case True
    have "\<not> bit x (63 - j - (64 - fillLevel c - n))"
    proof
      assume "bit x (63 - j - (64 - fillLevel c - n))"
      from take_bit_id_bit [OF assms(3) this] show False using True assms(2) by simp
    qed
    then have "bit (cache (push c x n)) (63 - j) = bit (cache c) (63 - j)"
      by (simp add: bit_push)
    with True j show ?thesis
      by (simp add: cbits_def nth_append) (simp add: push_def)
  next
    case False
    have "\<not> bit (cache c) (63 - j)"
    proof
      assume "bit (cache c) (63 - j)"
      from cache_inv_bit [OF assms(1) this] show False using False j assms(2) by simp
    qed
    moreover have "63 - j - (64 - fillLevel c - n) = n - 1 - (j - fillLevel c)"
      using False j assms(2) by simp
    moreover have "64 - fillLevel c - n \<le> 63 - j"
      using False j assms(2) by simp
    moreover have "63 - j < (64::nat)" by arith
    ultimately have "bit (cache (push c x n)) (63 - j) = bit x (n - 1 - (j - fillLevel c))"
      by (simp only: bit_push) simp
    with False j show ?thesis
      by (simp add: cbits_def nth_append bitsOf_def) (simp add: push_def)
  qed
qed

lemma peek_bits:
  assumes "n \<le> 32"
  shows "bit (peek c n) k \<longleftrightarrow> k < n \<and> bit (cache c) (64 - n + k)"
  using assms
  by (auto simp: peek_def bit_ucast_iff bit_drop_bit_eq dest: bit_imp_le_length)

lemma peek_take_bit: "n \<le> 32 \<Longrightarrow> take_bit n (peek c n) = peek c n"
  by (rule bit_eqI) (auto simp: bit_take_bit_iff peek_bits)

lemma bitsOf_peek:
  assumes "n \<le> fillLevel c" "n \<le> 32"
  shows "bitsOf n (peek c n) = take n (cbits c)"
proof (rule nth_equalityI)
  show "length (bitsOf n (peek c n)) = length (take n (cbits c))"
    using assms by (simp add: bitsOf_def cbits_def)
next
  fix j assume "j < length (bitsOf n (peek c n))"
  then have j: "j < n" by (simp add: bitsOf_def)
  then have "64 - n + (n - 1 - j) = 63 - j" using assms by simp
  with j assms show "bitsOf n (peek c n) ! j = take n (cbits c) ! j"
    by (simp add: bitsOf_def cbits_def peek_bits)
qed

lemma bit_skip:
  "bit (cache (skip c n)) i \<longleftrightarrow> n \<le> i \<and> i < 64 \<and> bit (cache c) (i - n)"
  by (auto simp: skip_def bit_push_bit_iff dest: bit_imp_le_length)

lemma skip_inv:
  assumes "cache_inv c" "n \<le> fillLevel c"
  shows "cache_inv (skip c n)"
proof (rule cache_invI)
  have "fillLevel c \<le> 64" using assms(1) by (simp add: cache_inv_def)
  then show "fillLevel (skip c n) \<le> 64" by (simp add: skip_def)
next
  fix i assume "bit (cache (skip c n)) i"
  then have "n \<le> i" "bit (cache c) (i - n)" by (simp_all add: bit_skip)
  with cache_inv_bit [OF assms(1), of "i - n"] assms(2)
  show "64 - fillLevel (skip c n) \<le> i" by (simp add: skip_def)
qed

lemma cbits_skip:
  assumes "cache_inv c" "n \<le> fillLevel c"
  shows "cbits (skip c n) = drop n (cbits c)"
proof (rule nth_equalityI)
  show "length (cbits (skip c n)) = length (drop n (cbits c))"
    by (simp add: cbits_def skip_def)
next
  fix j assume "j < length (cbits (skip c n))"
  then have j: "j < fillLevel c - n" by (simp add: cbits_def skip_def)
  have le: "fillLevel c \<le> 64" using assms(1) by (simp add: cache_inv_def)
  have "63 - j - n = 63 - (n + j)" by simp
  moreover have "n \<le> 63 - j" "63 - j < (64::nat)" using j le by arith+
  ultimately have "bit (cache (skip c n)) (63 - j) = bit (cache c) (63 - (n + j))"
    by (simp only: bit_skip) simp
  with j show "cbits (skip c n) ! j = drop n (cbits c) ! j"
    by (simp add: cbits_def) (simp add: skip_def)
qed

lemma bitsOf_inj:
  assumes "take_bit n x = x" "take_bit n y = y" "bitsOf n x = bitsOf n y"
  shows "x = (y :: 'a::len word)"
proof (rule bit_eqI)
  fix i
  show "bit x i = bit y i"
  proof (cases "i < n")
    case True
    then have "bitsOf n x ! (n - 1 - i) = bit x i" "bitsOf n y ! (n - 1 - i) = bit y i"
      by (simp_all add: bitsOf_def)
    with assms(3) show ?thesis by simp
  next
    case False
    then show ?thesis
      using take_bit_id_bit [OF assms(1), of i] take_bit_id_bit [OF assms(2), of i] by blast
  qed
qed

section \<open>The byte loop of the JPEG fillCache\<close>

lemma take_bit_ucast_byte: "take_bit 8 (ucast (b :: byte) :: 64 word) = ucast b"
  by (rule bit_eqI) (auto simp: bit_take_bit_iff bit_ucast_iff dest: bit_imp_le_length)

lemma fillLevel_push [simp]: "fillLevel (push c x n) = fillLevel c + n"
  by (simp add: push_def)

lemma fillLevel_pushBytes [simp]: "fillLevel (pushBytes c bs) = fillLevel c + 8 * length bs"
  unfolding pushBytes_def by (induction bs arbitrary: c) simp_all

lemma pushBytes_Cons: "pushBytes c (b # bs) = pushBytes (push c (ucast b) 8) bs"
  by (simp add: pushBytes_def)

lemma pushBytes_Nil [simp]: "pushBytes c [] = c"
  by (simp add: pushBytes_def)

lemma pushBytes_inv:
  "cache_inv c \<Longrightarrow> fillLevel c + 8 * length bs \<le> 64 \<Longrightarrow> cache_inv (pushBytes c bs)"
proof (induction bs arbitrary: c)
  case Nil
  then show ?case by simp
next
  case (Cons b bs)
  have "cache_inv (push c (ucast b) 8)"
    using Cons.prems by (intro push_inv take_bit_ucast_byte) simp_all
  then show ?case
    using Cons.prems by (simp add: pushBytes_Cons Cons.IH)
qed

lemma cbits_pushBytes:
  "cache_inv c \<Longrightarrow> fillLevel c + 8 * length bs \<le> 64 \<Longrightarrow>
   cbits (pushBytes c bs) = cbits c @ concat (map (bitsOf 8) bs)"
proof (induction bs arbitrary: c)
  case Nil
  then show ?case by simp
next
  case (Cons b bs)
  have i: "cache_inv (push c (ucast b) 8)"
    using Cons.prems by (intro push_inv take_bit_ucast_byte) simp_all
  have c: "cbits (push c (ucast b) 8) = cbits c @ bitsOf 8 (ucast b :: 64 word)"
    using Cons.prems by (intro cbits_push take_bit_ucast_byte) simp_all
  have u: "bitsOf 8 (ucast b :: 64 word) = bitsOf 8 b"
    by (auto simp: bitsOf_def bit_ucast_iff)
  show ?case
    using Cons.prems i by (simp add: pushBytes_Cons Cons.IH c u)
qed

lemma loop_normal:
  "d ! p \<noteq> 0xFF \<Longrightarrow>
   fillCache_loop d (Suc n) p c = fillCache_loop d n (p + 1) (push c (ucast (d ! p)) 8)"
  by (simp add: Let_def)

lemma loop_stuffed:
  "d ! p = 0xFF \<Longrightarrow> d ! (p + 1) = 0 \<Longrightarrow>
   fillCache_loop d (Suc n) p c = fillCache_loop d n (p + 2) (push c 0xFF 8)"
  by (simp add: Let_def)

lemma loop_marker:
  "d ! p = 0xFF \<Longrightarrow> d ! (p + 1) \<noteq> 0 \<Longrightarrow>
   fillCache_loop d (Suc n) p c =
     (p, \<lparr>cache = cache (push c 0xFF 8) AND NOT (drop_bit (fillLevel c) (- 1)),
          fillLevel = 64\<rparr>)"
  by (simp add: Let_def)

declare fillCache_loop.simps(2) [simp del]

lemma loop_stuff:
  "fillCache_loop (pfx @ stuff pre @ rest) (length pre + n) (length pfx) c =
   fillCache_loop (pfx @ stuff pre @ rest) n (length pfx + length (stuff pre)) (pushBytes c pre)"
proof (induction pre arbitrary: pfx c)
  case Nil
  show ?case by (simp add: stuff_def)
next
  case (Cons b pre)
  let ?d = "pfx @ stuff (b # pre) @ rest"
  show ?case
  proof (cases "b = 0xFF")
    case True
    have s: "stuff (b # pre) = [0xFF, 0x00] @ stuff pre" using True by (simp add: stuff_def)
    have d0: "?d ! length pfx = 0xFF" by (simp add: s nth_append)
    have d1: "?d ! (length pfx + 1) = 0" by (simp add: s nth_append)
    have "fillCache_loop ?d (length (b # pre) + n) (length pfx) c
        = fillCache_loop ?d (length pre + n) (length pfx + 2) (push c 0xFF 8)"
      using loop_stuffed [OF d0 d1, of "length pre + n" c] by simp
    also have "\<dots> = fillCache_loop ?d n (length pfx + 2 + length (stuff pre)) (pushBytes (push c 0xFF 8) pre)"
      using Cons.IH [of "pfx @ [0xFF, 0x00]" "push c 0xFF 8"] by (simp add: s)
    finally show ?thesis using True by (simp add: stuff_def pushBytes_Cons)
  next
    case False
    have s: "stuff (b # pre) = [b] @ stuff pre" using False by (simp add: stuff_def)
    have d0: "?d ! length pfx \<noteq> 0xFF" using False by (simp add: s nth_append)
    have d0': "?d ! length pfx = b" by (simp add: s nth_append)
    have "fillCache_loop ?d (length (b # pre) + n) (length pfx) c
        = fillCache_loop ?d (length pre + n) (length pfx + 1) (push c (ucast b) 8)"
      using loop_normal [OF d0, of "length pre + n" c] by (simp add: d0')
    also have "\<dots> = fillCache_loop ?d n (length pfx + 1 + length (stuff pre)) (pushBytes (push c (ucast b) 8) pre)"
      using Cons.IH [of "pfx @ [b]" "push c (ucast b) 8"] by (simp add: s)
    finally show ?thesis using False by (simp add: stuff_def pushBytes_Cons)
  qed
qed

lemma marker_unpush:
  assumes "cache_inv c" "fillLevel c + 8 \<le> 64"
  shows "cache (push c 0xFF 8) AND NOT (drop_bit (fillLevel c) (- 1)) = cache c"
proof (rule bit_eqI)
  fix i
  have m: "bit (NOT (drop_bit (fillLevel c) (- 1 :: 64 word))) i \<longleftrightarrow> i < 64 \<and> 64 \<le> fillLevel c + i"
    by (auto simp: bit_not_iff bit_drop_bit_eq bit_mask_iff)
  have f: "bit (0xFF :: 64 word) k \<Longrightarrow> k < 8" for k
    using take_bit_id_bit [of 8 "0xFF :: 64 word" k] by simp
  have e: "bit (cache (push c 0xFF 8) AND NOT (drop_bit (fillLevel c) (- 1))) i \<longleftrightarrow>
      (bit (cache c) i \<or> (64 - fillLevel c - 8 \<le> i \<and> i < 64 \<and> bit (0xFF :: 64 word) (i - (64 - fillLevel c - 8))))
      \<and> i < 64 \<and> 64 \<le> fillLevel c + i"
    by (simp only: bit_and_iff m bit_push)
  show "bit (cache (push c 0xFF 8) AND NOT (drop_bit (fillLevel c) (- 1))) i = bit (cache c) i"
  proof (cases "bit (cache c) i")
    case True
    from cache_inv_bit [OF assms(1) True] bit_imp_le_length [OF True]
    show ?thesis unfolding e using True by auto
  next
    case False
    have "\<not> (64 - fillLevel c - 8 \<le> i \<and> i < 64 \<and> bit (0xFF :: 64 word) (i - (64 - fillLevel c - 8))
            \<and> 64 \<le> fillLevel c + i)"
      using f [of "i - (64 - fillLevel c - 8)"] assms(2) by auto
    with False show ?thesis unfolding e by blast
  qed
qed

lemma stuff_id: "\<forall>b\<in>set bs. b \<noteq> 0xFF \<Longrightarrow> stuff bs = bs"
  unfolding stuff_def by (induction bs) simp_all

lemma ucast_push_byte:
  assumes "n \<le> 24"
  shows "(ucast (push_bit n (ucast (b :: byte) :: 32 word)) :: 64 word) = push_bit n (ucast b)"
proof (rule bit_eqI)
  fix i
  have "bit b (i - n) \<Longrightarrow> i - n < 8" using bit_imp_le_length [of b "i - n"] by simp
  with assms show "bit (ucast (push_bit n (ucast b :: 32 word)) :: 64 word) i
      = bit (push_bit n (ucast b) :: 64 word) i"
    by (auto simp: bit_ucast_iff bit_push_bit_iff)
qed

lemma ucast_ucast_byte: "(ucast (ucast (b :: byte) :: 32 word) :: 64 word) = ucast b"
  by (rule bit_eqI) (auto simp: bit_ucast_iff dest: bit_imp_le_length)

lemma ucast_getBE32:
  "(ucast (getBE32 d) :: 64 word) =
     push_bit 8 (push_bit 8 (push_bit 8 (ucast (d ! 0)) OR ucast (d ! 1)) OR ucast (d ! 2)) OR ucast (d ! 3)"
  by (simp add: getBE32_def unsigned_or_eq ucast_push_byte ucast_ucast_byte push_bit_or or.assoc)

lemma take_bit_ucast32: "take_bit 32 (ucast (w :: 32 word) :: 64 word) = ucast w"
  by (rule bit_eqI) (auto simp: bit_take_bit_iff bit_ucast_iff dest: bit_imp_le_length)

lemma push_push:
  "fillLevel c + m + n \<le> 64 \<Longrightarrow>
   push (push c x m) y n = push c (push_bit n x OR y) (m + n)"
  by (simp add: push_def push_bit_or or.assoc ac_simps)

lemma pushBytes4:
  assumes "fillLevel c \<le> 32" "4 \<le> length d"
  shows "pushBytes c (take 4 d) = push c (ucast (getBE32 d)) 32"
proof -
  have t: "take 4 d = [d ! 0, d ! 1, d ! 2, d ! 3]"
    using assms(2) by (auto intro!: nth_equalityI simp: nth_Cons' less_Suc_eq numeral_eq_Suc)
  show ?thesis
    unfolding t using assms(1)
    by (simp add: pushBytes_Cons push_push ucast_getBE32)
qed

lemma loop_no_FF:
  assumes "fillLevel c \<le> 32" "4 \<le> length d" "\<forall>b\<in>set (take 4 d). b \<noteq> 0xFF"
  shows "fillCache_loop d 4 0 c = (4, push c (ucast (getBE32 d)) 32)"
proof -
  have d: "d = [] @ stuff (take 4 d) @ drop 4 d"
    using stuff_id [OF assms(3)] by simp
  have l: "length (take 4 d) = 4" using assms(2) by simp
  have "fillCache_loop d (length (take 4 d) + 0) (length ([] :: byte list)) c
      = fillCache_loop d 0 (length ([] :: byte list) + length (stuff (take 4 d))) (pushBytes c (take 4 d))"
    using loop_stuff [of "[]" "take 4 d" "drop 4 d" 0 c] d by simp
  then have "fillCache_loop d 4 0 c = fillCache_loop d 0 4 (pushBytes c (take 4 d))"
    unfolding stuff_id [OF assms(3)] l by simp
  then show ?thesis
    using assms(1,2) by (simp add: pushBytes4)
qed

text \<open>
  C5: on a window whose first four bytes are all different from 0xFF,
  fillCache consumes exactly 4 bytes by one 32-bit big-endian load, and the
  byte-by-byte loop run on the same window and cache gives the same result.
\<close>

theorem fillCache_fast_path_equals_loop:
  assumes "length inp = 8" and "fillLevel c \<le> 32"
    and "inp ! 0 \<noteq> 0xFF" and "inp ! 1 \<noteq> 0xFF" and "inp ! 2 \<noteq> 0xFF" and "inp ! 3 \<noteq> 0xFF"
  shows "fillCache c inp = (4, push c (ucast (getBE32 inp)) 32)
       \<and> fillCache_loop inp 4 0 c = fillCache c inp"
proof -
  have t: "take 4 inp = [inp ! 0, inp ! 1, inp ! 2, inp ! 3]"
    using assms(1) by (auto intro!: nth_equalityI simp: nth_Cons' less_Suc_eq numeral_eq_Suc)
  have n: "\<forall>b\<in>set (take 4 inp). b \<noteq> 0xFF"
    unfolding t using assms(3-6) by simp
  have f: "fillCache c inp = (4, push c (ucast (getBE32 inp)) 32)"
    using assms(1) n by (simp add: fillCache_def Let_def list_all_iff)
  have "fillCache_loop inp 4 0 c = (4, push c (ucast (getBE32 inp)) 32)"
    using assms(1,2) n by (intro loop_no_FF) simp_all
  with f show ?thesis by simp
qed

theorem fillCache_fast_path_equals_loop_witness:
  "fillCache emptyCache [0x12, 0x34, 0x56, 0x78, 0xFF, 0x00, 0xFF, 0xD9]
     = (4, push emptyCache (ucast (getBE32 [0x12, 0x34, 0x56, 0x78, 0xFF, 0x00, 0xFF, 0xD9])) 32)
   \<and> fillCache_loop [0x12, 0x34, 0x56, 0x78, 0xFF, 0x00, 0xFF, 0xD9] 4 0 emptyCache
     = fillCache emptyCache [0x12, 0x34, 0x56, 0x78, 0xFF, 0x00, 0xFF, 0xD9]"
  using fillCache_fast_path_equals_loop [of "[0x12, 0x34, 0x56, 0x78, 0xFF, 0x00, 0xFF, 0xD9]" emptyCache]
  by (simp add: emptyCache_def)

section \<open>Progress of the JPEG fillCache\<close>

lemma fillCache_loop_consumed:
  "p \<le> fst (fillCache_loop d n p c) \<and> fst (fillCache_loop d n p c) \<le> p + 2 * n"
proof (induction n arbitrary: p c)
  case 0
  show ?case by simp
next
  case (Suc n)
  show ?case
    using Suc.IH [of "p + 1" "push c (ucast (d ! p)) 8"]
          Suc.IH [of "p + 2" "push c (ucast (d ! p)) 8"]
    by (auto simp: fillCache_loop.simps(2) Let_def)
qed

lemma fillCache_loop_stalled:
  assumes "fst (fillCache_loop d (Suc n) p c) = p"
  shows "fillLevel (snd (fillCache_loop d (Suc n) p c)) = 64
       \<and> d ! p = 0xFF \<and> d ! (p + 1) \<noteq> 0"
proof (cases "d ! p = 0xFF")
  case False
  then have "fillCache_loop d (Suc n) p c = fillCache_loop d n (p + 1) (push c (ucast (d ! p)) 8)"
    by (rule loop_normal)
  with assms fillCache_loop_consumed [of "p + 1" d n "push c (ucast (d ! p)) 8"]
  show ?thesis by simp
next
  case True
  show ?thesis
  proof (cases "d ! (p + 1) = 0")
    case z: True
    from loop_stuffed [OF True z, of n c]
      assms fillCache_loop_consumed [of "p + 2" d n "push c 0xFF 8"]
    show ?thesis by simp
  next
    case False
    with True show ?thesis by (simp add: loop_marker)
  qed
qed

lemma fill_JPEG_once:
  "fill_JPEG nbits s =
     (if nbits \<le> 32 \<and> fillLevel (bcache s) < nbits then fillStep_JPEG s else s)"
proof (cases "nbits \<le> 32 \<and> fillLevel (bcache s) < nbits")
  case True
  have "32 \<le> fillLevel (bcache (fillStep_JPEG s))"
    using fillCache_level [of "bcache s" "getInput 8 s"]
    by (auto simp: fillStep_JPEG_def Let_def)
  with True have "fill_JPEG nbits (fillStep_JPEG s) = fillStep_JPEG s"
    using fill_JPEG.simps [of nbits "fillStep_JPEG s"] by simp
  with True show ?thesis
    using fill_JPEG.simps [of nbits s] by simp
next
  case False
  then show ?thesis
    using fill_JPEG.simps [of nbits s] by auto
qed

section \<open>The cache invariant\<close>

lemma cache_inv_full: "fillLevel c = 64 \<Longrightarrow> cache_inv c"
  by (simp add: cache_inv_def)

lemma fillCache_loop_inv:
  "cache_inv c \<Longrightarrow> fillLevel c + 8 * n \<le> 64 \<Longrightarrow> cache_inv (snd (fillCache_loop d n p c))"
proof (induction n arbitrary: p c)
  case 0
  then show ?case by simp
next
  case (Suc n)
  have i: "cache_inv (push c (ucast (d ! p)) 8)"
    using Suc.prems by (intro push_inv take_bit_ucast_byte) simp_all
  show ?case
  proof (cases "d ! p = 0xFF")
    case False
    with Suc.IH [OF i, of "p + 1"] Suc.prems(2) show ?thesis
      by (simp add: loop_normal)
  next
    case True
    show ?thesis
    proof (cases "d ! (p + 1) = 0")
      case z: True
      from i True have "cache_inv (push c 0xFF 8)" by simp
      from Suc.IH [OF this, of "p + 2"] Suc.prems(2) show ?thesis
        by (simp add: loop_stuffed [OF True z])
    next
      case False
      with True show ?thesis by (simp add: loop_marker cache_inv_full)
    qed
  qed
qed

lemma fillCache_inv:
  assumes "cache_inv c" "fillLevel c \<le> 32"
  shows "cache_inv (snd (fillCache c inp))"
proof -
  have "cache_inv (push c (ucast (getBE32 (take 8 inp))) 32)"
    using assms by (intro push_inv take_bit_ucast32) simp_all
  moreover have "cache_inv (snd (fillCache_loop (take 8 inp) 4 0 c))"
    using assms by (intro fillCache_loop_inv) simp_all
  ultimately show ?thesis by (simp add: fillCache_def Let_def)
qed

text \<open>
  C6: the cache invariant (no register bit set below the \<open>fillLevel\<close> valid
  bits) is established by the empty cache and kept by \<open>push\<close> and \<open>skip\<close> within
  their preconditions and by the JPEG fillCache; the marker branch of the byte
  loop, which sets the fill level and masks the register directly, leaves a
  cache that satisfies it whatever the cache was before.
\<close>

theorem cache_invariant_preserved:
  "cache_inv emptyCache
   \<and> (cache_inv c \<and> fillLevel c + n \<le> 64 \<and> take_bit n x = x \<longrightarrow> cache_inv (push c x n))
   \<and> (cache_inv c \<and> n \<le> fillLevel c \<longrightarrow> cache_inv (skip c n))
   \<and> (cache_inv c \<and> fillLevel c \<le> 32 \<longrightarrow> cache_inv (snd (fillCache c inp)))
   \<and> (d ! p = 0xFF \<and> d ! (p + 1) \<noteq> 0 \<longrightarrow> cache_inv (snd (fillCache_loop d (Suc m) p c)))"
proof -
  have "cache_inv emptyCache" by (simp add: cache_inv_def emptyCache_def)
  moreover have "d ! p = 0xFF \<and> d ! (p + 1) \<noteq> 0 \<longrightarrow> cache_inv (snd (fillCache_loop d (Suc m) p c))"
    by (simp add: loop_marker cache_inv_full)
  ultimately show ?thesis
    using push_inv [of c n x] skip_inv [of c n] fillCache_inv [of c inp] by blast
qed

theorem cache_invariant_preserved_witness:
  "cache_inv (push emptyCache 0xAB 8)
   \<and> cache_inv (skip (push emptyCache 0xAB 8) 3)
   \<and> cache_inv (snd (fillCache (push emptyCache 0xAB 8) [0x12, 0xFF, 0xD9, 0, 0, 0, 0, 0]))
   \<and> cache_inv (snd (fillCache_loop [0x12, 0xFF, 0xD9, 0, 0, 0, 0, 0] (Suc 2) 1 (push emptyCache 0xAB 8)))"
proof -
  have e: "cache_inv emptyCache" "fillLevel emptyCache + 8 \<le> 64" "take_bit 8 (0xAB :: 64 word) = 0xAB"
    by (simp_all add: cache_inv_def emptyCache_def)
  have a: "cache_inv (push emptyCache 0xAB 8)"
    using e cache_invariant_preserved [of emptyCache 8 "0xAB"] by blast
  have l: "(3::nat) \<le> fillLevel (push emptyCache 0xAB 8)" "fillLevel (push emptyCache 0xAB 8) \<le> 32"
    by (simp_all add: emptyCache_def)
  have m: "[0x12, 0xFF, 0xD9, 0, 0, 0, 0, 0 :: byte] ! 1 = 0xFF"
          "[0x12, 0xFF, 0xD9, 0, 0, 0, 0, 0 :: byte] ! (1 + 1) \<noteq> 0"
    by simp_all
  show ?thesis
    using a l m
      cache_invariant_preserved [of "push emptyCache 0xAB 8" 3 _ "[0x12, 0xFF, 0xD9, 0, 0, 0, 0, 0]"
         "[0x12, 0xFF, 0xD9, 0, 0, 0, 0, 0]" 1 2]
    by blast
qed

section \<open>Stuffed 0xFF bytes\<close>

lemma stuff_Cons:
  "stuff (b # bs) = (if b = 0xFF then 0xFF # 0x00 # stuff bs else b # stuff bs)"
  by (simp add: stuff_def)

lemma stuff_Nil [simp]: "stuff [] = []"
  by (simp add: stuff_def)

lemma length_stuff: "length (stuff bs) = length bs + count_list bs 0xFF"
  by (induction bs) (simp_all add: stuff_Cons)

lemma FF_in_stuff_prefix:
  "0xFF \<in> set pre \<Longrightarrow> 0xFF \<in> set (take (length pre) (stuff pre @ rest))"
  by (induction pre) (auto simp: stuff_Cons)

lemma fillCache_unfold:
  "fillCache c inp =
     (if 0xFF \<notin> set (take 4 (take 8 inp)) then (4, push c (ucast (getBE32 (take 8 inp))) 32)
      else fillCache_loop (take 8 inp) 4 0 c)"
  by (auto simp: fillCache_def Let_def list_all_iff)

lemma fillCache_stuff4:
  assumes "length pre = 4" "cache_inv c" "fillLevel c \<le> 32"
  shows "fillCache c (stuff pre @ rest) = (length (stuff pre), pushBytes c pre)"
proof -
  define d where "d = take 8 (stuff pre @ rest)"
  have ls: "length (stuff pre) \<le> 8"
    using assms(1) count_le_length [of pre "0xFF"] by (simp add: length_stuff)
  then have d: "d = [] @ stuff pre @ take (8 - length (stuff pre)) rest" by (simp add: d_def)
  have t4: "take 4 d = take 4 (stuff pre @ rest)"
    unfolding d_def by (subst take_take) simp
  show ?thesis
  proof (cases "0xFF \<in> set pre")
    case True
    from FF_in_stuff_prefix [OF True, of rest] assms(1)
    have "0xFF \<in> set (take 4 d)" by (simp only: t4)
    then have slow: "fillCache c (stuff pre @ rest) = fillCache_loop d 4 0 c"
      unfolding fillCache_unfold d_def [symmetric] by simp
    have "fillCache_loop d (length pre + 0) (length ([] :: byte list)) c
        = fillCache_loop d 0 (length ([] :: byte list) + length (stuff pre)) (pushBytes c pre)"
      unfolding d by (rule loop_stuff)
    with slow assms(1) show ?thesis by simp
  next
    case False
    then have id: "stuff pre = pre" by (intro stuff_id) auto
    have t: "take 4 d = pre" using assms(1) by (simp add: t4 id)
    have l: "4 \<le> length d" using assms(1) by (simp add: d id)
    have "fillCache c (stuff pre @ rest) = (4, push c (ucast (getBE32 d)) 32)"
      unfolding fillCache_unfold d_def [symmetric] using False by (simp add: t)
    moreover have "pushBytes c (take 4 d) = push c (ucast (getBE32 d)) 32"
      using assms(3) l by (rule pushBytes4)
    ultimately show ?thesis using assms(1) by (simp add: t id)
  qed
qed

text \<open>
  C3: a raw 0xFF immediately followed by 0x00 is one literal data byte 0xFF.
  One loop iteration at such a pair pushes the 8 bits of 0xFF and advances the
  input by 2 bytes. For a whole call: when the window starts with the stuffed
  form of four data bytes \<open>pre\<close> (every 0xFF of \<open>pre\<close> written as 0xFF 0x00),
  fillCache consumes one raw byte per data byte plus one per 0xFF, and appends
  to the valid bits exactly the 8 bits of each data byte, in order.
\<close>

theorem fillCache_stuffed_FF_is_data:
  "(d ! p = 0xFF \<and> d ! (p + 1) = 0x00 \<longrightarrow>
      fillCache_loop d (Suc n) p c = fillCache_loop d n (p + 2) (push c 0xFF 8))
   \<and> (length pre = 4 \<and> cache_inv c \<and> fillLevel c \<le> 32 \<longrightarrow>
        fst (fillCache c (stuff pre @ rest)) = 4 + count_list pre 0xFF
      \<and> fillLevel (snd (fillCache c (stuff pre @ rest))) = fillLevel c + 32
      \<and> cbits (snd (fillCache c (stuff pre @ rest))) = cbits c @ concat (map (bitsOf 8) pre))"
proof -
  have a: "d ! p = 0xFF \<and> d ! (p + 1) = 0x00 \<longrightarrow>
      fillCache_loop d (Suc n) p c = fillCache_loop d n (p + 2) (push c 0xFF 8)"
    by (simp add: loop_stuffed)
  have b: "fst (fillCache c (stuff pre @ rest)) = 4 + count_list pre 0xFF
      \<and> fillLevel (snd (fillCache c (stuff pre @ rest))) = fillLevel c + 32
      \<and> cbits (snd (fillCache c (stuff pre @ rest))) = cbits c @ concat (map (bitsOf 8) pre)"
    if h: "length pre = 4" "cache_inv c" "fillLevel c \<le> 32"
    using fillCache_stuff4 [OF h, of rest] h cbits_pushBytes [of c pre]
    by (simp add: length_stuff)
  from a b show ?thesis by blast
qed

theorem fillCache_stuffed_FF_is_data_witness:
  "fillCache_loop [0xFF, 0x00, 0x12, 0x34, 0x56, 0x78, 0x9A, 0xBC] (Suc 3) 0 emptyCache
     = fillCache_loop [0xFF, 0x00, 0x12, 0x34, 0x56, 0x78, 0x9A, 0xBC] 3 (0 + 2) (push emptyCache 0xFF 8)
   \<and> fst (fillCache emptyCache (stuff [0xFF, 0x12, 0x34, 0x56] @ [0x78, 0x9A, 0xBC])) = 5
   \<and> fillLevel (snd (fillCache emptyCache (stuff [0xFF, 0x12, 0x34, 0x56] @ [0x78, 0x9A, 0xBC]))) = 32
   \<and> cbits (snd (fillCache emptyCache (stuff [0xFF, 0x12, 0x34, 0x56] @ [0x78, 0x9A, 0xBC])))
       = cbits emptyCache @ concat (map (bitsOf 8) [0xFF, 0x12, 0x34, 0x56 :: byte])"
proof -
  have h: "[0xFF, 0x00, 0x12, 0x34, 0x56, 0x78, 0x9A, 0xBC :: byte] ! 0 = 0xFF
       \<and> [0xFF, 0x00, 0x12, 0x34, 0x56, 0x78, 0x9A, 0xBC :: byte] ! (0 + 1) = 0x00"
    by simp
  have g: "length [0xFF, 0x12, 0x34, 0x56 :: byte] = 4 \<and> cache_inv emptyCache \<and> fillLevel emptyCache \<le> 32"
    by (simp add: cache_inv_def emptyCache_def)
  have k: "4 + count_list [0xFF, 0x12, 0x34, 0x56 :: byte] 0xFF = 5" "fillLevel emptyCache + 32 = 32"
    by (simp_all add: emptyCache_def)
  show ?thesis
    using h g k
      fillCache_stuffed_FF_is_data [of "[0xFF, 0x00, 0x12, 0x34, 0x56, 0x78, 0x9A, 0xBC]" 0 3 emptyCache
        "[0xFF, 0x12, 0x34, 0x56]" "[0x78, 0x9A, 0xBC]"]
    by metis
qed

section \<open>The marker\<close>

lemma length_ztake [simp]: "length (ztake k xs) = k"
  by (simp add: ztake_def)

lemma nth_ztake: "i < k \<Longrightarrow> ztake k xs ! i = (if i < length xs then xs ! i else False)"
  by (simp add: ztake_def nth_append)

lemma ztake_zeros: "ztake k (xs @ replicate a False) = ztake k xs"
  by (rule nth_equalityI) (auto simp: nth_ztake nth_append)

lemma ztake_split:
  "n \<le> length ys \<Longrightarrow> take n ys @ ztake k (drop n ys) = ztake (n + k) ys"
  by (rule nth_equalityI) (auto simp: nth_ztake nth_append)

lemma ztake_0 [simp]: "ztake 0 xs = []"
  by (simp add: ztake_def)

lemma length_cbits [simp]: "length (cbits c) = fillLevel c"
  by (simp add: cbits_def)

lemma cbits_full:
  assumes "cache_inv c"
  shows "cbits (c\<lparr>fillLevel := 64\<rparr>) = cbits c @ replicate (64 - fillLevel c) False"
proof (rule nth_equalityI)
  have "fillLevel c \<le> 64" using assms by (simp add: cache_inv_def)
  then show "length (cbits (c\<lparr>fillLevel := 64\<rparr>)) = length (cbits c @ replicate (64 - fillLevel c) False)"
    by simp
next
  fix j assume "j < length (cbits (c\<lparr>fillLevel := 64\<rparr>))"
  then have j: "j < 64" by simp
  show "cbits (c\<lparr>fillLevel := 64\<rparr>) ! j = (cbits c @ replicate (64 - fillLevel c) False) ! j"
  proof (cases "j < fillLevel c")
    case True
    with j show ?thesis by (simp add: cbits_def nth_append)
  next
    case False
    have "\<not> bit (cache c) (63 - j)"
    proof
      assume "bit (cache c) (63 - j)"
      from cache_inv_bit [OF assms this] False j show False by simp
    qed
    with False j show ?thesis by (simp add: cbits_def nth_append)
  qed
qed

lemma fillCache_marker_raw:
  assumes "length pre < 4" "x \<noteq> 0"
    and d: "d = stuff pre @ 0xFF # x # rest" and l: "length d = 8"
  shows "fillCache c d =
     (length (stuff pre),
      \<lparr>cache = cache (push (pushBytes c pre) 0xFF 8)
                 AND NOT (drop_bit (fillLevel (pushBytes c pre)) (- 1)),
       fillLevel = 64\<rparr>)"
proof -
  have td: "take 8 d = d" using l by simp
  have "0xFF \<in> set (take 4 d)"
  proof (cases "0xFF \<in> set pre")
    case True
    from FF_in_stuff_prefix [OF True, of "0xFF # x # rest"]
    have "0xFF \<in> set (take (length pre) d)" by (simp add: d)
    moreover have "set (take (length pre) d) \<subseteq> set (take 4 d)"
      using assms(1) by (intro set_take_subset_set_take) simp
    ultimately show ?thesis by blast
  next
    case False
    then have "stuff pre = pre" by (intro stuff_id) auto
    then have "d ! length pre = 0xFF" by (simp add: d nth_append)
    moreover have "length pre < length d" using assms(1) l by simp
    ultimately show ?thesis
      using assms(1) by (auto simp: in_set_conv_nth intro!: exI [of _ "length pre"])
  qed
  then have slow: "fillCache c d = fillCache_loop d 4 0 c"
    unfolding fillCache_unfold td by simp
  define m where "m = 3 - length pre"
  have m: "4 = length pre + Suc m"
    using assms(1) by (simp add: m_def)
  have d': "d = [] @ stuff pre @ (0xFF # x # rest)" by (simp add: d)
  have "fillCache_loop d (length pre + Suc m) (length ([] :: byte list)) c
        = fillCache_loop d (Suc m) (length ([] :: byte list) + length (stuff pre)) (pushBytes c pre)"
    unfolding d' by (rule loop_stuff)
  then have 1: "fillCache_loop d (length pre + Suc m) 0 c
      = fillCache_loop d (Suc m) (length (stuff pre)) (pushBytes c pre)"
    by simp
  have d0: "d ! length (stuff pre) = 0xFF" by (simp add: d nth_append)
  have d1: "d ! (length (stuff pre) + 1) \<noteq> 0" using assms(2) by (simp add: d nth_append)
  have "fillCache_loop d (Suc m) (length (stuff pre)) (pushBytes c pre)
      = (length (stuff pre),
         \<lparr>cache = cache (push (pushBytes c pre) 0xFF 8)
                    AND NOT (drop_bit (fillLevel (pushBytes c pre)) (- 1)),
          fillLevel = 64\<rparr>)"
    by (rule loop_marker [OF d0 d1])
  with 1 have "fillCache_loop d (length pre + Suc m) 0 c
      = (length (stuff pre),
         \<lparr>cache = cache (push (pushBytes c pre) 0xFF 8)
                    AND NOT (drop_bit (fillLevel (pushBytes c pre)) (- 1)),
          fillLevel = 64\<rparr>)"
    by simp
  then have "fillCache_loop d 4 0 c
      = (length (stuff pre),
         \<lparr>cache = cache (push (pushBytes c pre) 0xFF 8)
                    AND NOT (drop_bit (fillLevel (pushBytes c pre)) (- 1)),
          fillLevel = 64\<rparr>)"
    unfolding m [symmetric] .
  with slow show ?thesis by simp
qed

lemma fillCache_marker_window:
  assumes "cache_inv c" "fillLevel c \<le> 32" "length pre < 4" "x \<noteq> 0"
    and d: "d = stuff pre @ 0xFF # x # rest" and l: "length d = 8"
  shows "fillCache c d = (length (stuff pre), (pushBytes c pre)\<lparr>fillLevel := 64\<rparr>)"
proof -
  have i: "cache_inv (pushBytes c pre)"
    using assms(1,2,3) by (intro pushBytes_inv) simp_all
  have u: "cache (push (pushBytes c pre) 0xFF 8) AND NOT (drop_bit (fillLevel (pushBytes c pre)) (- 1))
         = cache (pushBytes c pre)"
    using assms(2,3) by (intro marker_unpush i) simp
  show ?thesis
    unfolding fillCache_marker_raw [OF assms(3,4) d l] u by simp
qed

lemma getInput_nth: "i < n \<Longrightarrow> getInput n s ! i = byte_at (input s) (pos s + i)"
  by (simp add: getInput_def)

lemma length_getInput [simp]: "length (getInput n s) = n"
  by (simp add: getInput_def)

lemma getInput_8_marker:
  assumes "byte_at (input s) (pos s) = 0xFF"
  shows "getInput 8 s = stuff [] @ 0xFF # byte_at (input s) (pos s + 1) # drop 2 (getInput 8 s)"
proof (rule nth_equalityI)
  show "length (getInput 8 s)
      = length (stuff [] @ 0xFF # byte_at (input s) (pos s + 1) # drop 2 (getInput 8 s))"
    by simp
next
  fix i assume "i < length (getInput 8 s)"
  then have i: "i < 8" by simp
  consider "i = 0" | "i = 1" | "2 \<le> i" by arith
  then show "getInput 8 s ! i
      = (stuff [] @ 0xFF # byte_at (input s) (pos s + 1) # drop 2 (getInput 8 s)) ! i"
  proof cases
    case 1
    with assms show ?thesis by (simp add: getInput_nth)
  next
    case 2
    then show ?thesis by (simp add: getInput_nth)
  next
    case 3
    then obtain k where k: "i = Suc (Suc k)" by (metis Suc_le_D numeral_2_eq_2 Suc_le_mono)
    with i show ?thesis by (simp add: getInput_nth)
  qed
qed

lemma fillStep_at_marker:
  assumes "at_marker s" "fillLevel (bcache s) \<le> 32"
  shows "fillStep_JPEG s = s\<lparr>bcache := (bcache s)\<lparr>fillLevel := 64\<rparr>\<rparr>"
proof -
  have "fillCache (bcache s) (getInput 8 s)
      = (length (stuff []), (pushBytes (bcache s) [])\<lparr>fillLevel := 64\<rparr>)"
    using assms
    by (intro fillCache_marker_window [where x = "byte_at (input s) (pos s + 1)"
          and rest = "drop 2 (getInput 8 s)"] getInput_8_marker)
       (simp_all add: at_marker_def)
  then show ?thesis by (simp add: fillStep_JPEG_def Let_def)
qed

lemma fill_at_marker:
  assumes "at_marker s" "n \<le> 32"
  shows "at_marker (fill_JPEG n s) \<and> pos (fill_JPEG n s) = pos s
       \<and> input (fill_JPEG n s) = input s
       \<and> n \<le> fillLevel (bcache (fill_JPEG n s))
       \<and> ztake k (cbits (bcache (fill_JPEG n s))) = ztake k (cbits (bcache s))"
proof (cases "fillLevel (bcache s) < n")
  case True
  then have l: "fillLevel (bcache s) \<le> 32" using assms(2) by simp
  have f: "fill_JPEG n s = s\<lparr>bcache := (bcache s)\<lparr>fillLevel := 64\<rparr>\<rparr>"
    using True assms(2) fillStep_at_marker [OF assms(1) l] by (simp add: fill_JPEG_once)
  have i: "cache_inv (bcache s)" using assms(1) by (simp add: at_marker_def)
  show ?thesis
    unfolding f using assms i
    by (simp add: at_marker_def cache_inv_full cbits_full ztake_zeros)
next
  case False
  then show ?thesis using assms by (simp add: fill_JPEG_once)
qed

lemma getBits_at_marker:
  assumes "at_marker s" "n \<le> 32"
  shows "at_marker (snd (getBits_JPEG n s)) \<and> pos (snd (getBits_JPEG n s)) = pos s
       \<and> input (snd (getBits_JPEG n s)) = input s
       \<and> bitsOf n (fst (getBits_JPEG n s)) @ ztake k (cbits (bcache (snd (getBits_JPEG n s))))
           = ztake (n + k) (cbits (bcache s))"
proof -
  let ?t = "fill_JPEG n s"
  note f = fill_at_marker [OF assms, of "n + k"]
  then have i: "cache_inv (bcache ?t)" and l: "n \<le> fillLevel (bcache ?t)"
    by (simp_all add: at_marker_def)
  have "bitsOf n (peek (bcache ?t) n) @ ztake k (cbits (skip (bcache ?t) n))
      = ztake (n + k) (cbits (bcache ?t))"
    using l assms(2) by (simp add: bitsOf_peek cbits_skip [OF i l] ztake_split)
  moreover from f have "pos ?t = pos s" "input ?t = input s"
    "ztake (n + k) (cbits (bcache ?t)) = ztake (n + k) (cbits (bcache s))"
    by blast+
  ultimately show ?thesis
    using skip_inv [OF i l] assms(1)
    by (simp add: getBits_JPEG_def getBitsNoFill_def at_marker_def)
qed

lemma getBitsMany_at_marker:
  assumes "at_marker s" "\<forall>n\<in>set ns. n \<le> 32"
  shows "pos (snd (getBitsMany_JPEG ns s)) = pos s
       \<and> concat (map2 bitsOf ns (fst (getBitsMany_JPEG ns s))) = ztake (sum_list ns) (cbits (bcache s))"
  using assms
proof (induction ns arbitrary: s)
  case Nil
  show ?case by simp
next
  case (Cons n ns)
  from Cons.prems have n: "n \<le> 32" and ns: "\<forall>n\<in>set ns. n \<le> 32" by simp_all
  note g = getBits_at_marker [OF Cons.prems(1) n, of "sum_list ns"]
  then have m: "at_marker (snd (getBits_JPEG n s))" by simp
  from Cons.IH [OF m ns] g show ?case
    by (simp add: Let_def)
qed

text \<open>
  C2: when the 8-byte window holds the stuffed form of fewer than four data
  bytes followed by 0xFF and a non-zero byte, one call of fillCache leaves the
  input position at that 0xFF (nothing of the marker is consumed), the cache
  full, and in it the old valid bits, the bits of the data bytes and zeros only:
  the pushed 0xFF is gone. From then on, whatever is read by \<open>getBits\<close>, the
  position stays at the 0xFF, and the bits read are the cached data bits
  followed by zeros.
\<close>

theorem fillCache_marker_stops:
  assumes inv: "cache_inv (bcache s)" and lvl: "fillLevel (bcache s) \<le> 32"
    and win: "getInput 8 s = stuff pre @ 0xFF # x # rest"
    and pre: "length pre < 4" and x: "x \<noteq> 0"
    and ns: "\<forall>n\<in>set ns. n \<le> 32"
  shows "getStreamPosition (fillStep_JPEG s) = pos s + length (stuff pre)
       \<and> byte_at (input s) (getStreamPosition (fillStep_JPEG s)) = 0xFF
       \<and> fillLevel (bcache (fillStep_JPEG s)) = 64
       \<and> cbits (bcache (fillStep_JPEG s))
           = cbits (bcache s) @ concat (map (bitsOf 8) pre)
             @ replicate (64 - (fillLevel (bcache s) + 8 * length pre)) False
       \<and> getStreamPosition (snd (getBitsMany_JPEG ns (fillStep_JPEG s))) = pos s + length (stuff pre)
       \<and> concat (map2 bitsOf ns (fst (getBitsMany_JPEG ns (fillStep_JPEG s))))
           = take (sum_list ns)
               (cbits (bcache s) @ concat (map (bitsOf 8) pre) @ replicate (sum_list ns) False)"
proof -
  let ?m = "length (stuff pre)"
  let ?c = "pushBytes (bcache s) pre"
  let ?t = "fillStep_JPEG s"
  have lm: "?m + 1 < 8"
    using pre count_le_length [of pre "0xFF"] by (simp add: length_stuff)
  have f: "fillCache (bcache s) (getInput 8 s) = (?m, ?c\<lparr>fillLevel := 64\<rparr>)"
    using inv lvl pre x win by (rule fillCache_marker_window) simp
  then have t: "?t = s\<lparr>pos := pos s + ?m, bcache := ?c\<lparr>fillLevel := 64\<rparr>\<rparr>"
    by (simp add: fillStep_JPEG_def Let_def)
  have ci: "cache_inv ?c" using inv lvl pre by (intro pushBytes_inv) simp_all
  have cb: "cbits ?c = cbits (bcache s) @ concat (map (bitsOf 8) pre)"
    using inv lvl pre by (intro cbits_pushBytes) simp_all
  have b0: "byte_at (input s) (pos s + ?m) = 0xFF"
    using getInput_nth [of ?m 8 s] lm by (simp add: win nth_append)
  have b1: "byte_at (input s) (pos s + ?m + 1) \<noteq> 0"
    using getInput_nth [of "?m + 1" 8 s] lm x by (simp add: win nth_append)
  have am: "at_marker ?t"
    unfolding t using b0 b1 by (simp add: at_marker_def cache_inv_full)
  have full: "cbits (bcache ?t) = cbits (bcache s) @ concat (map (bitsOf 8) pre)
             @ replicate (64 - (fillLevel (bcache s) + 8 * length pre)) False"
    unfolding t using cbits_full [OF ci] by (simp add: cb)
  note many = getBitsMany_at_marker [OF am ns]
  have "ztake (sum_list ns) (cbits (bcache ?t))
      = ztake (sum_list ns) (cbits (bcache s) @ concat (map (bitsOf 8) pre))"
    unfolding full using ztake_zeros [of "sum_list ns" "cbits (bcache s) @ concat (map (bitsOf 8) pre)"]
    by simp
  with many have reads: "concat (map2 bitsOf ns (fst (getBitsMany_JPEG ns ?t)))
      = take (sum_list ns)
          (cbits (bcache s) @ concat (map (bitsOf 8) pre) @ replicate (sum_list ns) False)"
    by (simp add: ztake_def)
  have p: "pos ?t = pos s + ?m" "fillLevel (bcache ?t) = 64" by (simp_all add: t)
  show ?thesis
    using p b0 full many reads
    by (simp add: getStreamPosition_def getInputPosition_def)
qed

theorem fillCache_marker_stops_witness:
  "getStreamPosition (fillStep_JPEG (BitStreamer_init [0x12, 0xFF, 0x00, 0x34, 0xFF, 0xD9, 0x56, 0x78])) = 4
   \<and> fillLevel (bcache (fillStep_JPEG (BitStreamer_init [0x12, 0xFF, 0x00, 0x34, 0xFF, 0xD9, 0x56, 0x78]))) = 64
   \<and> getStreamPosition (snd (getBitsMany_JPEG [8, 16, 4, 32]
        (fillStep_JPEG (BitStreamer_init [0x12, 0xFF, 0x00, 0x34, 0xFF, 0xD9, 0x56, 0x78])))) = 4
   \<and> concat (map2 bitsOf [8, 16, 4, 32] (fst (getBitsMany_JPEG [8, 16, 4, 32]
        (fillStep_JPEG (BitStreamer_init [0x12, 0xFF, 0x00, 0x34, 0xFF, 0xD9, 0x56, 0x78])))))
       = concat (map (bitsOf 8) [0x12, 0xFF, 0x34 :: byte]) @ replicate 36 False"
proof -
  let ?s = "BitStreamer_init [0x12, 0xFF, 0x00, 0x34, 0xFF, 0xD9, 0x56, 0x78]"
  have h: "cache_inv (bcache ?s)" "fillLevel (bcache ?s) \<le> 32"
    "getInput 8 ?s = stuff [0x12, 0xFF, 0x34] @ 0xFF # 0xD9 # [0x56, 0x78]"
    "length [0x12, 0xFF, 0x34 :: byte] < 4" "(0xD9 :: byte) \<noteq> 0"
    "\<forall>n\<in>set [8, 16, 4, 32 :: nat]. n \<le> 32"
    by code_simp+
  have e: "pos ?s + length (stuff [0x12, 0xFF, 0x34]) = 4"
    "take (sum_list [8, 16, 4, 32])
       (cbits (bcache ?s) @ concat (map (bitsOf 8) [0x12, 0xFF, 0x34 :: byte])
          @ replicate (sum_list [8, 16, 4, 32]) False)
     = concat (map (bitsOf 8) [0x12, 0xFF, 0x34 :: byte]) @ replicate 36 False"
    by code_simp+
  show ?thesis
    using fillCache_marker_stops [OF h] unfolding e by blast
qed

section \<open>The outcome of one call of the JPEG fillCache\<close>

lemma fillCache_loop_parse:
  assumes "p + 2 * n \<le> length d"
  shows "\<exists>pre. take (fst (fillCache_loop d n p c) - p) (drop p d) = stuff pre
          \<and> p \<le> fst (fillCache_loop d n p c)
          \<and> ((length pre = n \<and> snd (fillCache_loop d n p c) = pushBytes c pre)
             \<or> (length pre < n \<and> d ! fst (fillCache_loop d n p c) = 0xFF
                 \<and> d ! (fst (fillCache_loop d n p c) + 1) \<noteq> 0
                 \<and> fillLevel (snd (fillCache_loop d n p c)) = 64))"
  using assms
proof (induction n arbitrary: p c)
  case 0
  show ?case by (intro exI [of _ "[]"]) simp
next
  case (Suc n)
  have p: "p < length d" "p + 1 < length d" using Suc.prems by simp_all
  have dp: "drop p d = d ! p # drop (p + 1) d"
    using p(1) by (simp add: Cons_nth_drop_Suc)
  have dp2: "drop p d = d ! p # d ! (p + 1) # drop (p + 2) d"
    using p by (simp add: Cons_nth_drop_Suc)
  show ?case
  proof (cases "d ! p = 0xFF")
    case False
    let ?c1 = "push c (ucast (d ! p)) 8"
    let ?r = "fillCache_loop d n (p + 1) ?c1"
    have e: "fillCache_loop d (Suc n) p c = ?r" using False by (rule loop_normal)
    from Suc.prems have "p + 1 + 2 * n \<le> length d" by simp
    from Suc.IH [OF this, of ?c1] obtain pre where
      t: "take (fst ?r - (p + 1)) (drop (p + 1) d) = stuff pre" and le: "p + 1 \<le> fst ?r"
      and o: "(length pre = n \<and> snd ?r = pushBytes ?c1 pre)
             \<or> (length pre < n \<and> d ! fst ?r = 0xFF \<and> d ! (fst ?r + 1) \<noteq> 0
                 \<and> fillLevel (snd ?r) = 64)"
      by blast
    define k where "k = fst ?r - (p + 1)"
    have k: "fst ?r - p = Suc k" using le by (simp add: k_def)
    have "take (fst ?r - p) (drop p d) = stuff (d ! p # pre)"
      unfolding k dp using t False by (simp add: k_def stuff_Cons)
    moreover have "p \<le> fst ?r" using le by simp
    moreover have "(length (d ! p # pre) = Suc n \<and> snd ?r = pushBytes c (d ! p # pre))
             \<or> (length (d ! p # pre) < Suc n \<and> d ! fst ?r = 0xFF \<and> d ! (fst ?r + 1) \<noteq> 0
                 \<and> fillLevel (snd ?r) = 64)"
      using o by (auto simp: pushBytes_Cons)
    ultimately show ?thesis unfolding e by (intro exI [of _ "d ! p # pre"] conjI)
  next
    case True
    show ?thesis
    proof (cases "d ! (p + 1) = 0")
      case z: True
      let ?c1 = "push c 0xFF 8"
      let ?r = "fillCache_loop d n (p + 2) ?c1"
      have e: "fillCache_loop d (Suc n) p c = ?r" using True z by (rule loop_stuffed)
      from Suc.prems have "p + 2 + 2 * n \<le> length d" by simp
      from Suc.IH [OF this, of ?c1] obtain pre where
        t: "take (fst ?r - (p + 2)) (drop (p + 2) d) = stuff pre" and le: "p + 2 \<le> fst ?r"
        and o: "(length pre = n \<and> snd ?r = pushBytes ?c1 pre)
               \<or> (length pre < n \<and> d ! fst ?r = 0xFF \<and> d ! (fst ?r + 1) \<noteq> 0
                   \<and> fillLevel (snd ?r) = 64)"
        by blast
      define k where "k = fst ?r - (p + 2)"
      have k: "fst ?r - p = Suc (Suc k)" using le by (simp add: k_def)
      have "take (fst ?r - p) (drop p d) = stuff (0xFF # pre)"
        unfolding k dp2 using t True z by (simp add: k_def stuff_Cons)
      moreover have "p \<le> fst ?r" using le by simp
      moreover have "(length (0xFF # pre) = Suc n \<and> snd ?r = pushBytes c (0xFF # pre))
               \<or> (length (0xFF # pre) < Suc n \<and> d ! fst ?r = 0xFF \<and> d ! (fst ?r + 1) \<noteq> 0
                   \<and> fillLevel (snd ?r) = 64)"
        using o by (auto simp: pushBytes_Cons)
      ultimately show ?thesis unfolding e by (intro exI [of _ "0xFF # pre"] conjI)
    next
      case False
      with True show ?thesis
        by (intro exI [of _ "[]"]) (simp add: loop_marker)
    qed
  qed
qed

lemma fillCache_stuff4_level:
  assumes "length pre = 4"
  shows "fst (fillCache c (stuff pre @ rest)) = length (stuff pre)
       \<and> fillLevel (snd (fillCache c (stuff pre @ rest))) = fillLevel c + 32"
proof -
  define d where "d = take 8 (stuff pre @ rest)"
  have ls: "length (stuff pre) \<le> 8"
    using assms count_le_length [of pre "0xFF"] by (simp add: length_stuff)
  then have d: "d = [] @ stuff pre @ take (8 - length (stuff pre)) rest" by (simp add: d_def)
  have t4: "take 4 d = take 4 (stuff pre @ rest)"
    unfolding d_def by (subst take_take) simp
  show ?thesis
  proof (cases "0xFF \<in> set pre")
    case True
    from FF_in_stuff_prefix [OF True, of rest] assms
    have "0xFF \<in> set (take 4 d)" by (simp only: t4)
    then have slow: "fillCache c (stuff pre @ rest) = fillCache_loop d 4 0 c"
      unfolding fillCache_unfold d_def [symmetric] by simp
    have "fillCache_loop d (length pre + 0) (length ([] :: byte list)) c
        = fillCache_loop d 0 (length ([] :: byte list) + length (stuff pre)) (pushBytes c pre)"
      unfolding d by (rule loop_stuff)
    with slow assms show ?thesis by simp
  next
    case False
    then have id: "stuff pre = pre" by (intro stuff_id) auto
    have t: "take 4 d = pre" using assms by (simp add: t4 id)
    have "fillCache c (stuff pre @ rest) = (4, push c (ucast (getBE32 d)) 32)"
      unfolding fillCache_unfold d_def [symmetric] using False by (simp add: t)
    then show ?thesis using assms by (simp add: id)
  qed
qed

lemma fillCache_outcome:
  assumes "length inp = 8"
  shows "\<exists>pre. take (fst (fillCache c inp)) inp = stuff pre
          \<and> ((length pre = 4 \<and> fillLevel (snd (fillCache c inp)) = fillLevel c + 32)
             \<or> (length pre < 4 \<and> inp ! fst (fillCache c inp) = 0xFF
                 \<and> inp ! (fst (fillCache c inp) + 1) \<noteq> 0
                 \<and> fillLevel (snd (fillCache c inp)) = 64))"
proof (cases "0xFF \<in> set (take 4 inp)")
  case False
  then have id: "stuff (take 4 inp) = take 4 inp" by (intro stuff_id) auto
  have "fillCache c inp = (4, push c (ucast (getBE32 inp)) 32)"
    unfolding fillCache_unfold using False assms by simp
  then show ?thesis
    using assms by (intro exI [of _ "take 4 inp"]) (simp add: id)
next
  case True
  then have slow: "fillCache c inp = fillCache_loop inp 4 0 c"
    unfolding fillCache_unfold using assms by simp
  have "0 + 2 * 4 \<le> length inp" using assms by simp
  from fillCache_loop_parse [OF this, of c] obtain pre where
    "take (fst (fillCache_loop inp 4 0 c) - 0) (drop 0 inp) = stuff pre"
    "(length pre = 4 \<and> snd (fillCache_loop inp 4 0 c) = pushBytes c pre)
      \<or> (length pre < 4 \<and> inp ! fst (fillCache_loop inp 4 0 c) = 0xFF
          \<and> inp ! (fst (fillCache_loop inp 4 0 c) + 1) \<noteq> 0
          \<and> fillLevel (snd (fillCache_loop inp 4 0 c)) = 64)"
    by blast
  then show ?thesis
    unfolding slow by (intro exI [of _ pre]) auto
qed

text \<open>
  C10: fillCache reports between 0 and 8 consumed bytes, and what it does to
  the fill level is decided by the window. Every 8-byte window starts with the
  stuffed form of some data bytes, and one of two cases holds. Either there
  are four such data bytes and no marker before the end of the fourth (no
  marker encountered): then the bytes of their stuffed form are consumed and
  the fill level is exactly 32 higher. Or fewer than four data bytes are
  followed by 0xFF and a non-zero byte (marker encountered): then exactly the
  bytes before that 0xFF are consumed and the fill level is 64. No byte is
  consumed only when the marker stands at the very first byte, and then the
  cache is full. The enclosing \<open>fill(n)\<close> loop, n \<le> 32, therefore stops after at
  most one call of fillCache with at least n bits cached, and when that call
  consumed no byte the input position is unchanged.
\<close>

theorem fillCache_progress:
  "fst (fillCache c inp) \<le> 8
   \<and> (fillLevel (snd (fillCache c inp)) = fillLevel c + 32 \<or> fillLevel (snd (fillCache c inp)) = 64)
   \<and> (fst (fillCache c inp) = 0 \<longrightarrow>
        inp ! 0 = 0xFF \<and> inp ! 1 \<noteq> 0 \<and> fillLevel (snd (fillCache c inp)) = 64)
   \<and> (length inp = 8 \<longrightarrow>
        (\<exists>data. take (fst (fillCache c inp)) inp = stuff data
           \<and> ((length data = 4 \<and> fillLevel (snd (fillCache c inp)) = fillLevel c + 32)
              \<or> (length data < 4 \<and> inp ! fst (fillCache c inp) = 0xFF
                  \<and> inp ! (fst (fillCache c inp) + 1) \<noteq> 0
                  \<and> fillLevel (snd (fillCache c inp)) = 64))))
   \<and> (length pre = 4 \<and> inp = stuff pre @ rest \<longrightarrow>
        fst (fillCache c inp) = 4 + count_list pre 0xFF
        \<and> fillLevel (snd (fillCache c inp)) = fillLevel c + 32)
   \<and> (length inp = 8 \<and> length pre < 4 \<and> x \<noteq> 0 \<and> inp = stuff pre @ 0xFF # x # rest \<longrightarrow>
        fst (fillCache c inp) = length pre + count_list pre 0xFF
        \<and> fillLevel (snd (fillCache c inp)) = 64)
   \<and> (nbits \<le> 32 \<longrightarrow>
        nbits \<le> fillLevel (bcache (fill_JPEG nbits s))
        \<and> (fill_JPEG nbits s = s \<or> fill_JPEG nbits s = fillStep_JPEG s)
        \<and> (fst (fillCache (bcache s) (getInput 8 s)) = 0 \<longrightarrow> pos (fill_JPEG nbits s) = pos s))"
proof -
  have 4: "(4::nat) = Suc 3" by simp
  have a: "fst (fillCache c inp) \<le> 8"
    using fillCache_loop_consumed [of 0 "take 8 inp" 4 c]
    by (simp add: fillCache_def Let_def)
  have b: "fst (fillCache c inp) = 0 \<longrightarrow>
        inp ! 0 = 0xFF \<and> inp ! 1 \<noteq> 0 \<and> fillLevel (snd (fillCache c inp)) = 64"
    using fillCache_loop_stalled [of "take 8 inp" 3 0 c]
    by (auto simp: fillCache_def Let_def 4 [symmetric])
  have o: "length inp = 8 \<longrightarrow>
        (\<exists>data. take (fst (fillCache c inp)) inp = stuff data
           \<and> ((length data = 4 \<and> fillLevel (snd (fillCache c inp)) = fillLevel c + 32)
              \<or> (length data < 4 \<and> inp ! fst (fillCache c inp) = 0xFF
                  \<and> inp ! (fst (fillCache c inp) + 1) \<noteq> 0
                  \<and> fillLevel (snd (fillCache c inp)) = 64)))"
    using fillCache_outcome [of inp c] by (intro impI)
  have n: "length pre = 4 \<and> inp = stuff pre @ rest \<longrightarrow>
        fst (fillCache c inp) = 4 + count_list pre 0xFF
        \<and> fillLevel (snd (fillCache c inp)) = fillLevel c + 32"
    using fillCache_stuff4_level [of pre c rest] by (auto simp: length_stuff)
  have m: "length inp = 8 \<and> length pre < 4 \<and> x \<noteq> 0 \<and> inp = stuff pre @ 0xFF # x # rest \<longrightarrow>
        fst (fillCache c inp) = length pre + count_list pre 0xFF
        \<and> fillLevel (snd (fillCache c inp)) = 64"
    using fillCache_marker_raw [of pre x inp rest c] by (auto simp: length_stuff)
  have "32 \<le> fillLevel (bcache (fillStep_JPEG s))"
    using fillCache_level [of "bcache s" "getInput 8 s"]
    by (auto simp: fillStep_JPEG_def Let_def)
  then have f1: "nbits \<le> 32 \<longrightarrow> nbits \<le> fillLevel (bcache (fill_JPEG nbits s))"
    by (auto simp: fill_JPEG_once)
  have f2: "fst (fillCache (bcache s) (getInput 8 s)) = 0 \<longrightarrow> pos (fill_JPEG nbits s) = pos s"
    by (simp add: fill_JPEG_once fillStep_JPEG_def Let_def)
  have f3: "nbits \<le> 32 \<longrightarrow> fill_JPEG nbits s = s \<or> fill_JPEG nbits s = fillStep_JPEG s"
    by (simp add: fill_JPEG_once)
  have f: "nbits \<le> 32 \<longrightarrow>
        nbits \<le> fillLevel (bcache (fill_JPEG nbits s))
        \<and> (fill_JPEG nbits s = s \<or> fill_JPEG nbits s = fillStep_JPEG s)
        \<and> (fst (fillCache (bcache s) (getInput 8 s)) = 0 \<longrightarrow> pos (fill_JPEG nbits s) = pos s)"
    using f1 f2 f3 by blast
  from a fillCache_level [of c inp] b o n m f show ?thesis by (intro conjI)
qed

theorem fillCache_progress_witness:
  "fst (fillCache emptyCache [0x12, 0x34, 0x56, 0x78, 0x9A, 0xBC, 0xDE, 0xF0]) = 4
   \<and> fillLevel (snd (fillCache emptyCache [0x12, 0x34, 0x56, 0x78, 0x9A, 0xBC, 0xDE, 0xF0])) = 32
   \<and> fst (fillCache emptyCache [0xFF, 0x00, 0x12, 0xFF, 0x00, 0x34, 0x56, 0x78]) = 6
   \<and> fillLevel (snd (fillCache emptyCache [0xFF, 0x00, 0x12, 0xFF, 0x00, 0x34, 0x56, 0x78])) = 32
   \<and> fst (fillCache emptyCache [0x12, 0xFF, 0x00, 0xFF, 0xD9, 0x34, 0x56, 0x78]) = 3
   \<and> fillLevel (snd (fillCache emptyCache [0x12, 0xFF, 0x00, 0xFF, 0xD9, 0x34, 0x56, 0x78])) = 64
   \<and> 32 \<le> fillLevel (bcache (fill_JPEG 32 (BitStreamer_init [0xFF, 0xD9, 0, 0, 0, 0, 0, 0])))
   \<and> pos (fill_JPEG 32 (BitStreamer_init [0xFF, 0xD9, 0, 0, 0, 0, 0, 0])) = 0"
proof -
  let ?s = "BitStreamer_init [0xFF, 0xD9, 0, 0, 0, 0, 0, 0]"
  have h1: "length [0x12, 0x34, 0x56, 0x78 :: byte] = 4
      \<and> [0x12, 0x34, 0x56, 0x78, 0x9A, 0xBC, 0xDE, 0xF0] = stuff [0x12, 0x34, 0x56, 0x78] @ [0x9A, 0xBC, 0xDE, 0xF0]"
    by code_simp
  have h2: "length [0xFF, 0x12, 0xFF, 0x34 :: byte] = 4
      \<and> [0xFF, 0x00, 0x12, 0xFF, 0x00, 0x34, 0x56, 0x78] = stuff [0xFF, 0x12, 0xFF, 0x34] @ [0x56, 0x78]"
    by code_simp
  have h3: "length [0x12, 0xFF, 0x00, 0xFF, 0xD9, 0x34, 0x56, 0x78 :: byte] = 8
      \<and> length [0x12, 0xFF :: byte] < 4 \<and> (0xD9 :: byte) \<noteq> 0
      \<and> [0x12, 0xFF, 0x00, 0xFF, 0xD9, 0x34, 0x56, 0x78] = stuff [0x12, 0xFF] @ 0xFF # 0xD9 # [0x34, 0x56, 0x78]"
    by code_simp
  have h4: "(32::nat) \<le> 32" by simp
  have g: "fst (fillCache (bcache ?s) (getInput 8 ?s)) = 0"
    by code_simp
  note i1 = fillCache_progress [where c = emptyCache and pre = "[0x12, 0x34, 0x56, 0x78]"
      and rest = "[0x9A, 0xBC, 0xDE, 0xF0]",
      THEN conjunct2, THEN conjunct2, THEN conjunct2, THEN conjunct2, THEN conjunct1, THEN mp, OF h1]
  note i2 = fillCache_progress [where c = emptyCache and pre = "[0xFF, 0x12, 0xFF, 0x34]"
      and rest = "[0x56, 0x78]",
      THEN conjunct2, THEN conjunct2, THEN conjunct2, THEN conjunct2, THEN conjunct1, THEN mp, OF h2]
  note i3 = fillCache_progress [where c = emptyCache and pre = "[0x12, 0xFF]" and x = "0xD9"
      and rest = "[0x34, 0x56, 0x78]",
      THEN conjunct2, THEN conjunct2, THEN conjunct2, THEN conjunct2, THEN conjunct2, THEN conjunct1,
      THEN mp, OF h3]
  note i4 = fillCache_progress [where nbits = 32 and s = ?s,
      THEN conjunct2, THEN conjunct2, THEN conjunct2, THEN conjunct2, THEN conjunct2, THEN conjunct2,
      THEN mp, OF h4]
  note i5 = i4 [THEN conjunct2, THEN conjunct2, THEN mp, OF g]
  have p: "pos ?s = 0" by (simp add: BitStreamer_init_def)
  from i1 i2 i3 i4 [THEN conjunct1] i5 p show ?thesis
    by (simp add: emptyCache_def)
qed

section \<open>The MSB16 vacuumer on the test corpus\<close>

text \<open>
  C7: the three outputs of the word-swapped vacuumer listed in the test corpus.
\<close>

theorem synthesizeBitstream_examples:
  "synthesizeBitstream [(0xFF, 8)] = [0x00, 0xFF, 0x00, 0x00]
   \<and> synthesizeBitstream [(0x00, 8), (0xFF, 8)] = [0xFF, 0x00, 0x00, 0x00]
   \<and> synthesizeBitstream [(0x00, 25), (0xFF, 8)] = [0x00, 0x00, 0x7F, 0x00, 0x00, 0x80, 0x00, 0x00]"
  by code_simp

lemma synthesizeBitstream_corpus_rows:
  "synthesizeBitstream [(0x00, 0)] = []"
  "synthesizeBitstream [(0x00, 32)] = [0x00, 0x00, 0x00, 0x00]"
  "synthesizeBitstream [(0xFF, 8), (0x00, 24)] = [0x00, 0xFF, 0x00, 0x00]"
  "synthesizeBitstream [(0xFF, 8), (0x00, 25)] = [0x00, 0xFF, 0x00, 0x00, 0x00, 0x00, 0x00, 0x00]"
  "synthesizeBitstream [(0x00, 1), (0xFF, 8)] = [0x80, 0x7F, 0x00, 0x00]"
  "synthesizeBitstream [(0x00, 9), (0xFF, 8)] = [0x7F, 0x00, 0x00, 0x80]"
  "synthesizeBitstream [(0x00, 17), (0xFF, 8)] = [0x00, 0x00, 0x80, 0x7F]"
  "synthesizeBitstream [(0x00, 32), (0xFF, 8)] = [0x00, 0x00, 0x00, 0x00, 0x00, 0xFF, 0x00, 0x00]"
  by code_simp+

lemma Dissolution_rows:
  "Dissolution (BitStreamer_init [0x00, 0x00, 0x7F, 0x00, 0x00, 0x80, 0x00, 0x00]) [25, 8] = [0x00, 0xFF]"
  "Dissolution (BitStreamer_init [0x7F, 0x00, 0x00, 0x80]) [9, 8] = [0x00, 0xFF]"
  by code_simp+

section \<open>The MSB16 reader follows the stream\<close>

lemma length_sbits16 [simp]: "length (sbits16 d n len) = len"
  by (simp add: sbits16_def)

lemma sbits16_append: "sbits16 d n a @ sbits16 d (n + a) b = sbits16 d n (a + b)"
proof -
  have "[n..<n + (a + b)] = [n..<n + a] @ [n + a..<n + (a + b)]"
    using upt_add_eq_append [of n "n + a" b] by (simp add: add.assoc)
  then show ?thesis by (simp add: sbits16_def add.assoc)
qed

lemma take_sbits16: "k \<le> len \<Longrightarrow> take k (sbits16 d n len) = sbits16 d n k"
  by (simp add: sbits16_def take_map min_def)

lemma drop_sbits16: "k \<le> len \<Longrightarrow> drop k (sbits16 d n len) = sbits16 d (n + k) (len - k)"
  by (simp add: sbits16_def drop_map)

lemma take_bit_getLE16: "take_bit 16 (getLE16 d i) = getLE16 d i"
  unfolding getLE16_def
  by (rule bit_eqI) (auto simp: bit_take_bit_iff bit_or_iff bit_push_bit_iff bit_ucast_iff dest: bit_imp_le_length)

lemma bitsOf_getLE16:
  assumes "even p"
  shows "bitsOf 16 (push_bit 8 (ucast (byte_at d (p + 1))) OR ucast (byte_at d p) :: 64 word)
       = sbits16 d (8 * p) 16"
proof (rule nth_equalityI)
  show "length (bitsOf 16 (push_bit 8 (ucast (byte_at d (p + 1))) OR ucast (byte_at d p) :: 64 word))
      = length (sbits16 d (8 * p) 16)"
    by (simp add: bitsOf_def)
next
  fix j assume "j < length (bitsOf 16 (push_bit 8 (ucast (byte_at d (p + 1))) OR ucast (byte_at d p) :: 64 word))"
  then have j: "j < 16" by (simp add: bitsOf_def)
  show "bitsOf 16 (push_bit 8 (ucast (byte_at d (p + 1))) OR ucast (byte_at d p) :: 64 word) ! j
      = sbits16 d (8 * p) 16 ! j"
  proof (cases "j < 8")
    case True
    then have dm: "(8 * p + j) div 8 = p" "(8 * p + j) mod 8 = j" by simp_all
    have "\<not> bit (byte_at d p) (15 - j)"
      using bit_imp_le_length [of "byte_at d p" "15 - j"] True by auto
    moreover have "15 - j - 8 = 7 - j" "8 \<le> 15 - j" "15 - j < (64::nat)" "7 - j < (64::nat)"
      using True by simp_all
    ultimately show ?thesis
      using j assms
      by (simp add: bitsOf_def sbits16_def sbit16_def dm swap16_def bit_or_iff bit_push_bit_iff bit_ucast_iff)
  next
    case False
    then obtain r where r: "j = 8 + r" "r < 8" using j by (metis le_Suc_ex not_less add_less_cancel_left numeral_Bit0 add.commute less_diff_conv) 
    have dm: "(8 * p + j) div 8 = p + 1" "(8 * p + j) mod 8 = r" using r by simp_all
    have "\<not> 8 \<le> 15 - j" using False by simp
    moreover have "15 - j = 7 - r" "7 - r < (64::nat)" "j mod 8 = r" using r by simp_all
    ultimately show ?thesis
      using j assms
      by (simp add: bitsOf_def sbits16_def sbit16_def dm swap16_def bit_or_iff bit_push_bit_iff bit_ucast_iff)
  qed
qed

lemma rd_inv_init: "rd_inv d (BitStreamer_init d) 0"
  by (simp add: rd_inv_def BitStreamer_init_def emptyCache_def cache_inv_def cbits_def sbits16_def)

lemma fillStep_MSB16_inv:
  assumes "rd_inv d s n" "fillLevel (bcache s) \<le> 32"
  shows "rd_inv d (fillStep_MSB16 s) n \<and> fillLevel (bcache (fillStep_MSB16 s)) = fillLevel (bcache s) + 32"
proof -
  let ?c = "bcache s" and ?w = "getInput 4 s"
  let ?c1 = "push ?c (getLE16 ?w 0) 16"
  let ?c2 = "push ?c1 (getLE16 ?w 2) 16"
  from assms(1) have inp: "input s = d" and ci: "cache_inv ?c" and ev: "even (pos s)"
    and n: "n + fillLevel ?c = 8 * pos s" and cb: "cbits ?c = sbits16 d n (fillLevel ?c)"
    by (simp_all add: rd_inv_def)
  have w0: "getLE16 ?w 0 = push_bit 8 (ucast (byte_at d (pos s + 1))) OR ucast (byte_at d (pos s))"
    by (simp add: getLE16_def getInput_nth inp)
  have w2: "getLE16 ?w 2 = push_bit 8 (ucast (byte_at d (pos s + 2 + 1))) OR ucast (byte_at d (pos s + 2))"
    by (simp add: getLE16_def getInput_nth inp eval_nat_numeral)
  have b0: "bitsOf 16 (getLE16 ?w 0) = sbits16 d (8 * pos s) 16"
    unfolding w0 using ev by (rule bitsOf_getLE16)
  have b2: "bitsOf 16 (getLE16 ?w 2) = sbits16 d (8 * pos s + 16) 16"
    unfolding w2 using bitsOf_getLE16 [of "pos s + 2" d] ev by (simp add: algebra_simps)
  have i1: "cache_inv ?c1"
    using assms(2) by (intro push_inv [OF ci] take_bit_getLE16) simp_all
  have c1: "cbits ?c1 = cbits ?c @ bitsOf 16 (getLE16 ?w 0)"
    using assms(2) by (intro cbits_push [OF ci] take_bit_getLE16) simp_all
  have i2: "cache_inv ?c2"
    using assms(2) by (intro push_inv [OF i1] take_bit_getLE16) simp_all
  have c2: "cbits ?c2 = cbits ?c1 @ bitsOf 16 (getLE16 ?w 2)"
    using assms(2) by (intro cbits_push [OF i1] take_bit_getLE16) simp_all
  have e: "8 * pos s = n + fillLevel ?c" using n by simp
  have "cbits ?c2 = sbits16 d n (fillLevel ?c + 32)"
    unfolding c2 c1 cb b0 b2 e
    using sbits16_append [of d n "fillLevel ?c" 16] sbits16_append [of d n "fillLevel ?c + 16" 16]
    by (simp add: add.assoc)
  moreover have "fillStep_MSB16 s = s\<lparr>pos := pos s + 4, bcache := ?c2\<rparr>"
    by (simp add: fillStep_MSB16_def fillCache_MSB16_def Let_def)
  ultimately show ?thesis
    using inp i2 ev n by (simp add: rd_inv_def add.commute)
qed

lemma fill_MSB16_once:
  "fill_MSB16 nbits s =
     (if nbits \<le> 32 \<and> fillLevel (bcache s) < nbits then fillStep_MSB16 s else s)"
proof (cases "nbits \<le> 32 \<and> fillLevel (bcache s) < nbits")
  case True
  have "32 \<le> fillLevel (bcache (fillStep_MSB16 s))"
    by (simp add: fillStep_MSB16_def fillCache_MSB16_def Let_def)
  with True have "fill_MSB16 nbits (fillStep_MSB16 s) = fillStep_MSB16 s"
    using fill_MSB16.simps [of nbits "fillStep_MSB16 s"] by simp
  with True show ?thesis
    using fill_MSB16.simps [of nbits s] by simp
next
  case False
  then show ?thesis
    using fill_MSB16.simps [of nbits s] by auto
qed

lemma fill_MSB16_inv:
  assumes "rd_inv d s n" "nbits \<le> 32"
  shows "rd_inv d (fill_MSB16 nbits s) n \<and> nbits \<le> fillLevel (bcache (fill_MSB16 nbits s))"
proof (cases "fillLevel (bcache s) < nbits")
  case True
  then have "fillLevel (bcache s) \<le> 32" using assms(2) by simp
  from fillStep_MSB16_inv [OF assms(1) this] True assms(2) show ?thesis
    by (simp add: fill_MSB16_once)
next
  case False
  with assms show ?thesis by (simp add: fill_MSB16_once)
qed

lemma getBitsNoFill_inv:
  assumes "rd_inv d s n" "len \<le> fillLevel (bcache s)" "len \<le> 32"
  shows "rd_inv d (snd (getBitsNoFill len s)) (n + len)
       \<and> bitsOf len (fst (getBitsNoFill len s)) = sbits16 d n len
       \<and> take_bit len (fst (getBitsNoFill len s)) = fst (getBitsNoFill len s)"
proof -
  from assms(1) have inp: "input s = d" and ci: "cache_inv (bcache s)" and ev: "even (pos s)"
    and n: "n + fillLevel (bcache s) = 8 * pos s"
    and cb: "cbits (bcache s) = sbits16 d n (fillLevel (bcache s))"
    by (simp_all add: rd_inv_def)
  have "cbits (skip (bcache s) len) = sbits16 d (n + len) (fillLevel (bcache s) - len)"
    using assms(2) by (simp add: cbits_skip [OF ci assms(2)] cb drop_sbits16)
  moreover have "fillLevel (skip (bcache s) len) = fillLevel (bcache s) - len"
    by (simp add: skip_def)
  moreover have "bitsOf len (peek (bcache s) len) = sbits16 d n len"
    using assms(2,3) by (simp add: bitsOf_peek cb take_sbits16)
  ultimately show ?thesis
    using inp ev n assms(2,3) skip_inv [OF ci assms(2)]
    by (simp add: getBitsNoFill_def rd_inv_def peek_take_bit)
qed

lemma getBits_MSB16_inv:
  assumes "rd_inv d s n" "len \<le> 32"
  shows "rd_inv d (snd (getBits_MSB16 len s)) (n + len)
       \<and> bitsOf len (fst (getBits_MSB16 len s)) = sbits16 d n len
       \<and> take_bit len (fst (getBits_MSB16 len s)) = fst (getBits_MSB16 len s)"
  using fill_MSB16_inv [OF assms] getBitsNoFill_inv [of d "fill_MSB16 len s" n len] assms(2)
  by (simp add: getBits_MSB16_def)

section \<open>Rebasing the MSB16 reader\<close>

lemma byte_at_drop: "byte_at (drop b d) i = byte_at d (b + i)"
  by (auto simp: byte_at_def)

lemma swap16_add_even: "even b \<Longrightarrow> swap16 (b + q) = b + swap16 q"
  by (auto simp: swap16_def elim: oddE)

lemma sbit16_drop:
  assumes "even b"
  shows "sbit16 (drop b d) k = sbit16 d (8 * b + k)"
proof -
  have "(8 * b + k) div 8 = b + k div 8" "(8 * b + k) mod 8 = k mod 8" by simp_all
  then show ?thesis
    using assms by (simp add: sbit16_def byte_at_drop swap16_add_even)
qed

lemma sbits16_cong:
  "(\<And>k. k < len \<Longrightarrow> sbit16 d' (n' + k) = sbit16 d (n + k)) \<Longrightarrow> sbits16 d' n' len = sbits16 d n len"
  by (rule nth_equalityI) (simp_all add: sbits16_def)

lemma getBitsMany_MSB16_inv:
  "rd_inv d s n \<Longrightarrow> \<forall>l\<in>set lens. l \<le> 32 \<Longrightarrow>
   rd_inv d (snd (getBitsMany_MSB16 lens s)) (n + sum_list lens)"
proof (induction lens arbitrary: s n)
  case Nil
  then show ?case by simp
next
  case (Cons l lens)
  from Cons.prems have l: "l \<le> 32" and ls: "\<forall>l\<in>set lens. l \<le> 32" by simp_all
  from getBits_MSB16_inv [OF Cons.prems(1) l]
  have "rd_inv d (snd (getBits_MSB16 l s)) (n + l)" by simp
  from Cons.IH [OF this ls] show ?case by (simp add: Let_def add.assoc)
qed

lemma getBitsMany_MSB16_agree:
  assumes "rd_inv d s n" "rd_inv d' s' n'"
    and "\<And>k. sbit16 d' (n' + k) = sbit16 d (n + k)"
    and "\<forall>l\<in>set lens. l \<le> 32"
  shows "fst (getBitsMany_MSB16 lens s') = fst (getBitsMany_MSB16 lens s)"
  using assms
proof (induction lens arbitrary: s s' n n')
  case Nil
  show ?case by simp
next
  case (Cons l lens)
  from Cons.prems have l: "l \<le> 32" and ls: "\<forall>l\<in>set lens. l \<le> 32" by simp_all
  note a = getBits_MSB16_inv [OF Cons.prems(1) l]
  note b = getBits_MSB16_inv [OF Cons.prems(2) l]
  have "sbits16 d' n' l = sbits16 d n l"
    by (rule sbits16_cong) (rule Cons.prems(3))
  with a b have "bitsOf l (fst (getBits_MSB16 l s')) = bitsOf l (fst (getBits_MSB16 l s))"
    by simp
  moreover from a b have "take_bit l (fst (getBits_MSB16 l s')) = fst (getBits_MSB16 l s')"
    "take_bit l (fst (getBits_MSB16 l s)) = fst (getBits_MSB16 l s)" by simp_all
  ultimately have v: "fst (getBits_MSB16 l s') = fst (getBits_MSB16 l s)"
    using bitsOf_inj [of l "fst (getBits_MSB16 l s')" "fst (getBits_MSB16 l s)"] by blast
  have "fst (getBitsMany_MSB16 lens (snd (getBits_MSB16 l s')))
      = fst (getBitsMany_MSB16 lens (snd (getBits_MSB16 l s)))"
  proof (rule Cons.IH [of "snd (getBits_MSB16 l s)" "n + l" "snd (getBits_MSB16 l s')" "n' + l"])
    show "rd_inv d (snd (getBits_MSB16 l s)) (n + l)" using a by simp
    show "rd_inv d' (snd (getBits_MSB16 l s')) (n' + l)" using b by simp
    show "sbit16 d' (n' + l + k) = sbit16 d (n + l + k)" for k
      using Cons.prems(3) [of "l + k"] by (simp add: add.assoc)
    show "\<forall>l\<in>set lens. l \<le> 32" by (rule ls)
  qed
  with v show ?case by (simp add: Let_def)
qed

lemma rebased_agrees:
  assumes l1: "\<forall>l\<in>set lens1. l \<le> 32" and l2: "\<forall>l\<in>set lens2. l \<le> 32"
    and s: "s = snd (getBitsMany_MSB16 lens1 (BitStreamer_init d))"
    and a: "addresses e (save s)" and k: "subByteBitOffset e \<le> 32"
    and ev: "bytePos e mod MinLoadStepByteMultiple_MSB16 = 0"
  shows "fst (getBitsMany_MSB16 lens2 (rebased d e)) = fst (getBitsMany_MSB16 lens2 s)"
proof -
  let ?n = "sum_list lens1"
  let ?d' = "drop (bytePos e) d"
  have inv: "rd_inv d s ?n"
    using getBitsMany_MSB16_inv [OF rd_inv_init l1, of d] by (simp add: s)
  then have "?n + fillLevel (bcache s) = 8 * pos s" by (simp add: rd_inv_def)
  with a have n: "8 * bytePos e + subByteBitOffset e = ?n"
    by (simp add: addresses_def save_def getInputPosition_def getFillLevel_def)
  have even: "even (bytePos e)"
    using ev unfolding MinLoadStepByteMultiple_MSB16_def by presburger
  have r: "rd_inv ?d' (rebased d e) (subByteBitOffset e)"
  proof (cases "subByteBitOffset e = 0")
    case True
    then show ?thesis using rd_inv_init [of ?d'] by (simp add: rebased_def Let_def)
  next
    case False
    from getBits_MSB16_inv [OF rd_inv_init k, of ?d'] False show ?thesis
      by (simp add: rebased_def Let_def skipBits_MSB16_def)
  qed
  show ?thesis
  proof (rule getBitsMany_MSB16_agree [OF inv r _ l2])
    fix j
    show "sbit16 ?d' (subByteBitOffset e + j) = sbit16 d (?n + j)"
      unfolding sbit16_drop [OF even] n [symmetric] by (simp add: add.assoc)
  qed
qed

lemma toExternal_addresses:
  assumes "cacheFillLevel p \<le> 8 * inputBytePos p"
  shows "addresses (toExternal p) p \<and> subByteBitOffset (toExternal p) < 8"
  using assms by (simp add: addresses_def toExternal_def Let_def)

text \<open>
  C4: let a word-swapped reader over \<open>d\<close> have read some values. Its saved
  position converts to an external position with a bit offset below 8 that
  addresses the same read point. If the byte offset of that position is a
  multiple of \<open>MinLoadStepByteMultiple\<close> (2), a fresh reader over \<open>d\<close> cropped at
  the byte offset that skips the bit offset returns, for every further
  sequence of reads, the values the original reader returns. The same holds
  for every external position that addresses the read point with an aligned
  byte offset and at most 32 bits to skip.
\<close>

theorem rebase_fidelity_MSB16:
  assumes "\<forall>l\<in>set lens1. l \<le> 32" and "\<forall>l\<in>set lens2. l \<le> 32"
    and "s = snd (getBitsMany_MSB16 lens1 (BitStreamer_init d))"
  shows "subByteBitOffset (toExternal (save s)) < 8
       \<and> addresses (toExternal (save s)) (save s)
       \<and> (bytePos (toExternal (save s)) mod MinLoadStepByteMultiple_MSB16 = 0 \<longrightarrow>
            fst (getBitsMany_MSB16 lens2 (rebased d (toExternal (save s))))
              = fst (getBitsMany_MSB16 lens2 s))
       \<and> (addresses e (save s) \<and> subByteBitOffset e \<le> 32
            \<and> bytePos e mod MinLoadStepByteMultiple_MSB16 = 0 \<longrightarrow>
            fst (getBitsMany_MSB16 lens2 (rebased d e)) = fst (getBitsMany_MSB16 lens2 s))"
proof -
  have inv: "rd_inv d s (sum_list lens1)"
    using getBitsMany_MSB16_inv [OF rd_inv_init assms(1), of d] by (simp add: assms(3))
  then have "cacheFillLevel (save s) \<le> 8 * inputBytePos (save s)"
    by (simp add: rd_inv_def save_def getInputPosition_def getFillLevel_def)
  from toExternal_addresses [OF this]
  have t: "addresses (toExternal (save s)) (save s)" "subByteBitOffset (toExternal (save s)) < 8"
    by simp_all
  then have "subByteBitOffset (toExternal (save s)) \<le> 32" by simp
  then have 1: "bytePos (toExternal (save s)) mod MinLoadStepByteMultiple_MSB16 = 0 \<longrightarrow>
            fst (getBitsMany_MSB16 lens2 (rebased d (toExternal (save s))))
              = fst (getBitsMany_MSB16 lens2 s)"
    using rebased_agrees [OF assms t(1)] by (intro impI)
  have 2: "addresses e (save s) \<and> subByteBitOffset e \<le> 32
            \<and> bytePos e mod MinLoadStepByteMultiple_MSB16 = 0 \<longrightarrow>
            fst (getBitsMany_MSB16 lens2 (rebased d e)) = fst (getBitsMany_MSB16 lens2 s)"
    using rebased_agrees [OF assms, of e] by (intro impI) (elim conjE)
  from t 1 2 show ?thesis by (intro conjI)
qed

theorem rebase_fidelity_MSB16_witness:
  "fst (getBitsMany_MSB16 [8, 3, 16]
     (rebased [0, 1, 2, 3, 4, 5, 6, 7, 8, 9, 10, 11]
        (toExternal (save (snd (getBitsMany_MSB16 [8, 12] (BitStreamer_init [0, 1, 2, 3, 4, 5, 6, 7, 8, 9, 10, 11])))))))
   = fst (getBitsMany_MSB16 [8, 3, 16]
       (snd (getBitsMany_MSB16 [8, 12] (BitStreamer_init [0, 1, 2, 3, 4, 5, 6, 7, 8, 9, 10, 11]))))
   \<and> fst (getBitsMany_MSB16 [8, 3, 16]
     (rebased [0, 1, 2, 3, 4, 5, 6, 7, 8, 9, 10, 11] \<lparr>bytePos = 0, subByteBitOffset = 20\<rparr>))
   = fst (getBitsMany_MSB16 [8, 3, 16]
       (snd (getBitsMany_MSB16 [8, 12] (BitStreamer_init [0, 1, 2, 3, 4, 5, 6, 7, 8, 9, 10, 11]))))"
proof -
  let ?d = "[0, 1, 2, 3, 4, 5, 6, 7, 8, 9, 10, 11] :: byte list"
  let ?s = "snd (getBitsMany_MSB16 [8, 12] (BitStreamer_init ?d))"
  have h: "\<forall>l\<in>set [8, 12 :: nat]. l \<le> 32" "\<forall>l\<in>set [8, 3, 16 :: nat]. l \<le> 32"
    by simp_all
  have a: "bytePos (toExternal (save ?s)) mod MinLoadStepByteMultiple_MSB16 = 0"
    by code_simp
  have b: "addresses \<lparr>bytePos = 0, subByteBitOffset = 20\<rparr> (save ?s)
      \<and> subByteBitOffset \<lparr>bytePos = 0, subByteBitOffset = 20\<rparr> \<le> 32
      \<and> bytePos \<lparr>bytePos = 0, subByteBitOffset = 20\<rparr> mod MinLoadStepByteMultiple_MSB16 = 0"
    by code_simp
  note c = rebase_fidelity_MSB16 [OF h refl, where e = "\<lparr>bytePos = 0, subByteBitOffset = 20\<rparr>"]
  note i1 = c [THEN conjunct2, THEN conjunct2, THEN conjunct1, THEN mp, OF a]
  note i2 = c [THEN conjunct2, THEN conjunct2, THEN conjunct2, THEN mp, OF b]
  show ?thesis by (rule conjI [OF i1 i2])
qed

lemma rebase_unaligned_diverges:
  "bytePos (toExternal (save (snd (getBitsMany_MSB16 [8] (BitStreamer_init [0, 1, 2, 3, 4, 5, 6, 7]))))) = 1"
  "fst (getBitsMany_MSB16 [8]
     (rebased [0, 1, 2, 3, 4, 5, 6, 7]
        (toExternal (save (snd (getBitsMany_MSB16 [8] (BitStreamer_init [0, 1, 2, 3, 4, 5, 6, 7])))))))
   = [2]"
  "fst (getBitsMany_MSB16 [8] (snd (getBitsMany_MSB16 [8] (BitStreamer_init [0, 1, 2, 3, 4, 5, 6, 7])))) = [0]"
  by code_simp+

section \<open>The MSB16 vacuumer writes the stream\<close>

lemma swap16_less: "even n \<Longrightarrow> q < n \<Longrightarrow> swap16 q < n"
  by (auto simp: swap16_def elim!: evenE oddE)

lemma sbit16_append_left:
  assumes "even (length xs)" "k < 8 * length xs"
  shows "sbit16 (xs @ ys) k = sbit16 xs k"
proof -
  have "k div 8 < length xs" using assms(2) by simp
  from swap16_less [OF assms(1) this] show ?thesis
    by (simp add: sbit16_def byte_at_def nth_append)
qed

lemma sbits16_append_left:
  assumes "even (length xs)" "n + len \<le> 8 * length xs"
  shows "sbits16 (xs @ ys) n len = sbits16 xs n len"
  unfolding sbits16_def using assms
  by (auto intro!: sbit16_append_left)

lemma sbit16_append_right:
  assumes "even (length xs)"
  shows "sbit16 (xs @ ys) (8 * length xs + k) = sbit16 ys k"
proof -
  have "(8 * length xs + k) div 8 = length xs + k div 8" "(8 * length xs + k) mod 8 = k mod 8"
    by simp_all
  then show ?thesis
    using assms by (simp add: sbit16_def swap16_add_even byte_at_def nth_append)
qed

lemma sbits16_append_right:
  assumes "even (length xs)"
  shows "sbits16 (xs @ ys) (8 * length xs) len = sbits16 ys 0 len"
  by (rule nth_equalityI) (simp_all add: sbits16_def sbit16_append_right [OF assms])

lemma bit_chunk_byte:
  "j < 8 \<Longrightarrow> bit (ucast (drop_bit s (c :: 32 word)) :: byte) j = bit c (s + j)"
  by (simp add: bit_ucast_iff bit_drop_bit_eq)

lemma sbits16_chunk_bytes: "sbits16 (chunk_bytes c) 0 32 = bitsOf 32 c"
proof (rule nth_equalityI)
  show "length (sbits16 (chunk_bytes c) 0 32) = length (bitsOf 32 c)"
    by (simp add: bitsOf_def)
next
  fix j assume "j < length (sbits16 (chunk_bytes c) 0 32)"
  then have j: "j < 32" by simp
  define q r where "q = j div 8" and "r = j mod 8"
  have r: "r < 8" and jq: "j = 8 * q + r" and q: "q < 4"
    using j by (simp_all add: q_def r_def)
  have lhs: "sbits16 (chunk_bytes c) 0 32 ! j = bit (byte_at (chunk_bytes c) (swap16 q)) (7 - r)"
    using j by (simp add: sbits16_def sbit16_def q_def r_def)
  have rhs: "bitsOf 32 c ! j = bit c (31 - j)"
    using j by (simp add: bitsOf_def)
  have r7: "7 - r < 8" by simp
  from q consider "q = 0" | "q = 1" | "q = 2" | "q = 3" by arith
  then have "bit (byte_at (chunk_bytes c) (swap16 q)) (7 - r) = bit c (31 - j)"
  proof cases
    case 1
    have "31 - j = 24 + (7 - r)" using jq r 1 by simp
    then show ?thesis
      using bit_chunk_byte [OF r7, of 24 c] 1
      by (simp add: swap16_def byte_at_def chunk_bytes_def)
  next
    case 2
    have "31 - j = 16 + (7 - r)" using jq r 2 by simp
    then show ?thesis
      using bit_chunk_byte [OF r7, of 16 c] 2
      by (simp add: swap16_def byte_at_def chunk_bytes_def)
  next
    case 3
    have "31 - j = 8 + (7 - r)" using jq r 3 by simp
    then show ?thesis
      using bit_chunk_byte [OF r7, of 8 c] 3
      by (simp add: swap16_def byte_at_def chunk_bytes_def)
  next
    case 4
    have "31 - j = 0 + (7 - r)" using jq r 4 by simp
    then show ?thesis
      using bit_chunk_byte [OF r7, of 0 c] 4
      by (simp add: swap16_def byte_at_def chunk_bytes_def)
  qed
  with lhs rhs show "sbits16 (chunk_bytes c) 0 32 ! j = bitsOf 32 c ! j" by simp
qed

lemma take_bit_unat_less:
  "unat (v :: 'a::len word) < 2 ^ n \<Longrightarrow> take_bit n v = v"
  by (simp add: word_unat_eq_iff unsigned_take_bit_eq take_bit_nat_eq_self)

lemma take_bit_ucast_value:
  assumes "unat (v :: 32 word) < 2 ^ n"
  shows "take_bit n (ucast v :: 64 word) = ucast v"
proof (rule bit_eqI)
  fix i
  have "bit v i \<Longrightarrow> i < n"
    using take_bit_id_bit [OF take_bit_unat_less [OF assms], of i] by simp
  then show "bit (take_bit n (ucast v :: 64 word)) i = bit (ucast v :: 64 word) i"
    by (auto simp: bit_take_bit_iff bit_ucast_iff)
qed

lemma bitsOf_ucast_value: "n \<le> 32 \<Longrightarrow> bitsOf n (ucast (v :: 32 word) :: 64 word) = bitsOf n v"
  by (auto simp: bitsOf_def bit_ucast_iff)

lemma bitsOf_zero: "bitsOf n (0 :: 'a::len word) = replicate n False"
  by (rule nth_equalityI) (simp_all add: bitsOf_def)

lemma length_bitsOf [simp]: "length (bitsOf n w) = n"
  by (simp add: bitsOf_def)

lemma drain_inv:
  assumes ci: "cache_inv (vcache v)" and dv: "4 dvd length (out v)"
    and W: "sbits16 (out v) 0 (8 * length (out v)) @ cbits (vcache v) = W"
    and l: "fillLevel (vcache v) < 64"
  shows "wr_inv (drain v) W"
proof (cases "fillLevel (vcache v) < 32")
  case True
  with assms show ?thesis by (simp add: drain_def wr_inv_def)
next
  case False
  then have l32: "32 \<le> fillLevel (vcache v)" by simp
  let ?o = "out v" and ?e = "chunk_bytes (peek (vcache v) 32)"
  have ev: "even (length ?o)" using dv by (meson dvd_trans even_numeral dvd_refl numeral_Bit0_eq_double dvd_triv_left)
  have "sbits16 (?o @ ?e) 0 (8 * length ?o + 32)
      = sbits16 (?o @ ?e) 0 (8 * length ?o) @ sbits16 (?o @ ?e) (0 + 8 * length ?o) 32"
    by (rule sbits16_append [symmetric])
  also have "sbits16 (?o @ ?e) 0 (8 * length ?o) = sbits16 ?o 0 (8 * length ?o)"
    using ev by (intro sbits16_append_left) simp_all
  also have "sbits16 (?o @ ?e) (0 + 8 * length ?o) 32 = bitsOf 32 (peek (vcache v) 32)"
    using sbits16_append_right [OF ev, of ?e 32] by (simp add: sbits16_chunk_bytes)
  also have "bitsOf 32 (peek (vcache v) 32) = take 32 (cbits (vcache v))"
    using l32 by (simp add: bitsOf_peek)
  finally have "sbits16 (?o @ ?e) 0 (8 * length ?o + 32) @ cbits (skip (vcache v) 32) = W"
    using W by (simp add: cbits_skip [OF ci l32])
  moreover have "length (?o @ ?e) = length ?o + 4" by (simp add: chunk_bytes_def)
  moreover have "fillLevel (skip (vcache v) 32) < 32" using l by (simp add: skip_def)
  ultimately show ?thesis
    using False dv skip_inv [OF ci l32]
    by (simp add: drain_def drainImpl_def wr_inv_def algebra_simps)
qed

lemma put_inv:
  assumes "wr_inv v W" "len \<le> 32" "unat bits < 2 ^ len"
  shows "wr_inv (put v bits len) (W @ bitsOf len bits)"
proof -
  from assms(1) have ci: "cache_inv (vcache v)" and l: "fillLevel (vcache v) < 32"
    and dv: "4 dvd length (out v)"
    and W: "sbits16 (out v) 0 (8 * length (out v)) @ cbits (vcache v) = W"
    by (simp_all add: wr_inv_def)
  let ?c = "push (vcache v) (ucast bits) len"
  have t: "take_bit len (ucast bits :: 64 word) = ucast bits"
    using assms(3) by (rule take_bit_ucast_value)
  have le: "fillLevel (vcache v) + len \<le> 64" using l assms(2) by simp
  have i: "cache_inv ?c" using ci le t by (rule push_inv)
  have c: "cbits ?c = cbits (vcache v) @ bitsOf len bits"
    using cbits_push [OF ci le t] assms(2) by (simp add: bitsOf_ucast_value)
  have "wr_inv (drain (v\<lparr>vcache := ?c\<rparr>)) (W @ bitsOf len bits)"
    using i dv W c l assms(2) by (intro drain_inv) simp_all
  then show ?thesis by (simp add: put_def)
qed

lemma foldl_put_inv:
  "wr_inv v W \<Longrightarrow> recipe_ok recepie \<Longrightarrow>
   wr_inv (foldl (\<lambda>bv e. put bv (fst e) (snd e)) v recepie) (W @ recipe_bits recepie)"
proof (induction recepie arbitrary: v W)
  case Nil
  then show ?case by (simp add: recipe_bits_def)
next
  case (Cons e recepie)
  from Cons.prems(2) have e: "snd e \<le> 32" "unat (fst e) < 2 ^ snd e" and r: "recipe_ok recepie"
    by (simp_all add: recipe_ok_def)
  from Cons.IH [OF put_inv [OF Cons.prems(1) e] r] show ?case
    by (simp add: recipe_bits_def)
qed

lemma wr_inv_init: "wr_inv BitVacuumer_init []"
  by (simp add: wr_inv_def BitVacuumer_init_def emptyCache_def cache_inv_def cbits_def sbits16_def)

lemma flush_inv:
  assumes "wr_inv v W"
  shows "4 dvd length (out (flush v)) \<and> length W \<le> 8 * length (out (flush v))
       \<and> 8 * length (out (flush v)) < length W + 32
       \<and> sbits16 (out (flush v)) 0 (8 * length (out (flush v)))
           = W @ replicate (8 * length (out (flush v)) - length W) False"
proof -
  from assms have ci: "cache_inv (vcache v)" and l: "fillLevel (vcache v) < 32"
    and dv: "4 dvd length (out v)"
    and W: "sbits16 (out v) 0 (8 * length (out v)) @ cbits (vcache v) = W"
    by (simp_all add: wr_inv_def)
  have d: "drain v = v" using l by (simp add: drain_def)
  have lw: "length W = 8 * length (out v) + fillLevel (vcache v)"
    using W [symmetric] by simp
  show ?thesis
  proof (cases "fillLevel (vcache v) = 0")
    case True
    then have "cbits (vcache v) = []" by (simp add: cbits_def)
    with W True dv lw show ?thesis by (simp add: flush_def d Let_def)
  next
    case False
    let ?k = "32 - fillLevel (vcache v)"
    let ?c = "push (vcache v) 0 ?k"
    let ?v = "drain (v\<lparr>vcache := ?c\<rparr>)"
    have le: "fillLevel (vcache v) + ?k \<le> 64" using l by simp
    have t: "take_bit ?k (0 :: 64 word) = 0" by simp
    have i: "cache_inv ?c" using ci le t by (rule push_inv)
    have c: "cbits ?c = cbits (vcache v) @ replicate ?k False"
      using cbits_push [OF ci le t] by (simp add: bitsOf_zero)
    have w: "wr_inv ?v (W @ replicate ?k False)"
      using i dv W c l by (intro drain_inv) simp_all
    have f: "flush v = ?v" using False by (simp add: flush_def d Let_def)
    from w have l': "fillLevel (vcache ?v) < 32" and dv': "4 dvd length (out ?v)"
      and eq: "sbits16 (out ?v) 0 (8 * length (out ?v)) @ cbits (vcache ?v) = W @ replicate ?k False"
      by (simp_all add: wr_inv_def)
    from arg_cong [OF eq, of length]
    have tot: "8 * length (out ?v) + fillLevel (vcache ?v) = length W + ?k" by simp
    from dv' obtain a where a: "length (out ?v) = 4 * a" by (auto elim: dvdE)
    from dv obtain b where b: "length (out v) = 4 * b" by (auto elim: dvdE)
    have z: "fillLevel (vcache ?v) = 0"
      using tot l' l lw unfolding a b by presburger
    then have len: "8 * length (out ?v) = length W + ?k" using tot by simp
    from z have "cbits (vcache ?v) = []" by (simp add: cbits_def)
    with eq have "sbits16 (out ?v) 0 (8 * length (out ?v)) = W @ replicate ?k False"
      by simp
    with dv' len l False show ?thesis
      unfolding f by simp
  qed
qed

lemma length_recipe_bits: "length (recipe_bits recepie) = sum_list (map snd recepie)"
  unfolding recipe_bits_def by (induction recepie) simp_all

lemma recipe_bits_Cons: "recipe_bits (e # recepie) = bitsOf (snd e) (fst e) @ recipe_bits recepie"
  by (simp add: recipe_bits_def)

lemma synthesizeBitstream_stream:
  assumes "recipe_ok recepie"
  shows "4 dvd length (synthesizeBitstream recepie)
       \<and> length (recipe_bits recepie) \<le> 8 * length (synthesizeBitstream recepie)
       \<and> 8 * length (synthesizeBitstream recepie) < length (recipe_bits recepie) + 32
       \<and> sbits16 (synthesizeBitstream recepie) 0 (8 * length (synthesizeBitstream recepie))
           = recipe_bits recepie
             @ replicate (8 * length (synthesizeBitstream recepie) - length (recipe_bits recepie)) False"
  using flush_inv [OF foldl_put_inv [OF wr_inv_init assms]]
  by (simp add: synthesizeBitstream_def)

text \<open>
  C8: for every recipe within the contract of \<open>put\<close>, the output of the
  word-swapped vacuumer is a whole number of 4-byte drain units, the least
  that holds all bits written; its stream bits are the bits written, followed
  by zero bits only up to the end of the last unit.
\<close>

theorem synthesizeBitstream_pads_with_zeros:
  assumes "recipe_ok recepie"
  shows "4 dvd length (synthesizeBitstream recepie)
       \<and> 8 * length (synthesizeBitstream recepie) = 32 * ((sum_list (map snd recepie) + 31) div 32)
       \<and> sbits16 (synthesizeBitstream recepie) 0 (8 * length (synthesizeBitstream recepie))
           = recipe_bits recepie
             @ replicate (8 * length (synthesizeBitstream recepie) - sum_list (map snd recepie)) False"
proof -
  note s = synthesizeBitstream_stream [OF assms]
  let ?T = "sum_list (map snd recepie)" and ?o = "synthesizeBitstream recepie"
  from s obtain a where a: "length ?o = 4 * a" by (auto elim: dvdE)
  have "?T \<le> 32 * a" "32 * a < ?T + 32"
    using s unfolding a length_recipe_bits by simp_all
  then have "(?T + 31) div 32 = a" by (intro div_nat_eqI) simp_all
  then have "8 * length ?o = 32 * ((?T + 31) div 32)" unfolding a by simp
  with s show ?thesis by (simp add: length_recipe_bits)
qed

theorem synthesizeBitstream_pads_with_zeros_witness:
  "4 dvd length (synthesizeBitstream [(0x00, 25), (0xFF, 8)])
   \<and> 8 * length (synthesizeBitstream [(0x00, 25), (0xFF, 8)]) = 64
   \<and> sbits16 (synthesizeBitstream [(0x00, 25), (0xFF, 8)]) 0
        (8 * length (synthesizeBitstream [(0x00, 25), (0xFF, 8)]))
       = recipe_bits [(0x00, 25), (0xFF, 8)] @ replicate 31 False"
proof -
  have h: "recipe_ok [(0x00, 25), (0xFF, 8)]"
    by (simp add: recipe_ok_def)
  have l: "length (synthesizeBitstream [(0x00, 25), (0xFF, 8)]) = 8"
    by code_simp
  have t: "32 * ((sum_list (map snd [(0x00 :: 32 word, 25 :: nat), (0xFF, 8)]) + 31) div 32) = 64"
    "8 * 8 - sum_list (map snd [(0x00 :: 32 word, 25 :: nat), (0xFF, 8)]) = 31"
    by simp_all
  show ?thesis
    using synthesizeBitstream_pads_with_zeros [OF h] unfolding l t by simp
qed

section \<open>Round trip\<close>

lemma Dissolution_reads:
  assumes "rd_inv d s n" "recipe_ok suf"
    and "sbits16 d n (length (recipe_bits suf)) = recipe_bits suf"
  shows "Dissolution s (map snd suf) = map fst suf"
  using assms
proof (induction suf arbitrary: s n)
  case Nil
  show ?case by simp
next
  case (Cons e suf)
  let ?len = "snd e" and ?val = "fst e"
  let ?s1 = "fill_MSB16 32 s"
  from Cons.prems(2) have len: "?len \<le> 32" and val: "unat ?val < 2 ^ ?len" and ok: "recipe_ok suf"
    by (simp_all add: recipe_ok_def)
  from fill_MSB16_inv [OF Cons.prems(1), of 32]
  have i1: "rd_inv d ?s1 n" and l1: "32 \<le> fillLevel (bcache ?s1)" by simp_all
  have st: "sbits16 d n ?len @ sbits16 d (n + ?len) (length (recipe_bits suf))
      = bitsOf ?len ?val @ recipe_bits suf"
    using Cons.prems(3) by (simp add: recipe_bits_Cons sbits16_append)
  then have hd: "sbits16 d n ?len = bitsOf ?len ?val"
    and tl: "sbits16 d (n + ?len) (length (recipe_bits suf)) = recipe_bits suf"
    by simp_all
  show ?case
  proof (cases "?len = 0")
    case True
    with val have "?val = 0" by (simp add: unat_eq_0)
    moreover from tl True have "sbits16 d n (length (recipe_bits suf)) = recipe_bits suf" by simp
    from Cons.IH [OF i1 ok this] have "Dissolution ?s1 (map snd suf) = map fst suf" .
    ultimately show ?thesis using True by (simp add: Let_def)
  next
    case False
    let ?r = "getBitsNoFill ?len ?s1"
    from l1 len have "?len \<le> fillLevel (bcache ?s1)" by simp
    from getBitsNoFill_inv [OF i1 this len]
    have i2: "rd_inv d (snd ?r) (n + ?len)" and b: "bitsOf ?len (fst ?r) = sbits16 d n ?len"
      and t: "take_bit ?len (fst ?r) = fst ?r" by simp_all
    have "fst ?r = ?val"
      using bitsOf_inj [of ?len "fst ?r" ?val] t take_bit_unat_less [OF val] b hd by simp
    moreover from Cons.IH [OF i2 ok tl] have "Dissolution (snd ?r) (map snd suf) = map fst suf" .
    ultimately show ?thesis using False by (simp add: Let_def)
  qed
qed

text \<open>
  C1: for every recipe within the contract of \<open>put\<close> (each length at most 32,
  each value below 2 to its length), reading the lengths of the recipe back
  with the word-swapped reader from the bytes the word-swapped vacuumer wrote
  returns the values of the recipe, in order. The bytes behind the output do
  not matter: \<open>pad\<close> is arbitrary, and may be empty. (The Dissolution test
  skips a recipe whose output is empty; here the reader then reads zeros, and
  the values of such a recipe are all 0.)
\<close>

theorem vacuumer_reader_roundtrip_MSB16:
  assumes "recipe_ok recepie"
  shows "Dissolution (BitStreamer_init (synthesizeBitstream recepie @ pad)) (map snd recepie)
       = map fst recepie"
proof -
  note s = synthesizeBitstream_stream [OF assms]
  let ?o = "synthesizeBitstream recepie" and ?W = "recipe_bits recepie"
  have ev: "even (length ?o)" using s by (meson dvd_trans even_numeral dvd_refl numeral_Bit0_eq_double dvd_triv_left)
  have "sbits16 (?o @ pad) 0 (length ?W) = sbits16 ?o 0 (length ?W)"
    using ev s by (intro sbits16_append_left) simp_all
  also have "\<dots> = take (length ?W) (sbits16 ?o 0 (8 * length ?o))"
  proof -
    from s have "length ?W \<le> 8 * length ?o" by simp
    then show ?thesis by (simp only: take_sbits16)
  qed
  also have "\<dots> = ?W"
  proof -
    from s have eq: "sbits16 ?o 0 (8 * length ?o)
        = ?W @ replicate (8 * length ?o - length ?W) False" by simp
    show ?thesis unfolding eq by simp
  qed
  finally show ?thesis
    using Dissolution_reads [OF rd_inv_init assms] by simp
qed

theorem vacuumer_reader_roundtrip_MSB16_witness:
  "Dissolution (BitStreamer_init (synthesizeBitstream [(0x00, 25), (0xFF, 8), (0x12345, 17), (0, 0), (0xFFFFFFFF, 32)] @ [0xAB, 0xCD]))
      (map snd [(0x00 :: 32 word, 25), (0xFF, 8), (0x12345, 17), (0, 0), (0xFFFFFFFF, 32)])
   = map fst [(0x00 :: 32 word, 25 :: nat), (0xFF, 8), (0x12345, 17), (0, 0), (0xFFFFFFFF, 32)]"
proof -
  have h: "recipe_ok [(0x00, 25), (0xFF, 8), (0x12345, 17), (0, 0), (0xFFFFFFFF, 32)]"
    by (simp add: recipe_ok_def)
  show ?thesis
    by (rule vacuumer_reader_roundtrip_MSB16 [OF h])
qed

section \<open>The truncation check of the ORF decoder\<close>

lemma unat_stripSize_gen:
  "unat acc + sum_list (map unat counts) < 2 ^ 32 \<Longrightarrow>
   unat (foldl (\<lambda>size c. size + c) (acc :: 32 word) counts) = unat acc + sum_list (map unat counts)"
proof (induction counts arbitrary: acc)
  case Nil
  show ?case by simp
next
  case (Cons c counts)
  from Cons.prems have "unat acc + unat c < 2 ^ 32" by simp
  then have u: "unat (acc + c) = unat acc + unat c"
    by (simp add: unat_add_lem [THEN iffD1])
  with Cons.prems have "unat (acc + c) + sum_list (map unat counts) < 2 ^ 32" by simp
  from Cons.IH [OF this] u show ?case by simp
qed

lemma unat_stripSize:
  "sum_list (map unat counts) < 2 ^ 32 \<Longrightarrow> unat (stripSize counts) = sum_list (map unat counts)"
  using unat_stripSize_gen [of 0 counts] by (simp add: stripSize_def)

text \<open>
  When the byte counts add up to less than 2^32, the check does what the
  spec says: a declared range that does not fit is rejected as truncated
  before anything is constructed.
\<close>

lemma decodeRawInternal_truncated:
  assumes "COMPRESSION raw = 1" "length (STRIPBYTECOUNTS raw) = length (STRIPOFFSETS raw)"
    and "sum_list (map unat (STRIPBYTECOUNTS raw)) < 2 ^ 32"
    and "declared_truncated fileSize raw"
  shows "decodeRawInternal fileSize force_uncompressed raw = Inl TruncatedFile"
proof -
  from assms(4) obtain off rest where o: "STRIPOFFSETS raw = off # rest"
    and t: "fileSize < unat off + sum_list (map unat (STRIPBYTECOUNTS raw))"
    by (auto simp: declared_truncated_def split: list.splits)
  have "\<not> isValid fileSize off (stripSize (STRIPBYTECOUNTS raw))"
    using t by (simp add: isValid_def unat_stripSize [OF assms(3)])
  then show ?thesis
    using assms(1,2) o by (simp add: decodeRawInternal_def Let_def getU32_def)
qed

text \<open>
  C9: two strips that declare 2^31 bytes each in a file of 1000 bytes. The
  declared data does not fit into the file, but the 32-bit sum of the byte
  counts wraps around to 0, the check passes, and decodeRawInternal goes on to
  construct the uncompressed decompressor instead of raising "Truncated file".
\<close>

theorem decodeRawInternal_size_wraps:
  "declared_truncated 1000
     \<lparr>COMPRESSION = 1, STRIPOFFSETS = [8, 0x80000008], STRIPBYTECOUNTS = [0x80000000, 0x80000000],
      IMAGEWIDTH = 2, IMAGELENGTH = 2\<rparr>
   \<and> decodeRawInternal 1000 False
     \<lparr>COMPRESSION = 1, STRIPOFFSETS = [8, 0x80000008], STRIPBYTECOUNTS = [0x80000000, 0x80000000],
      IMAGEWIDTH = 2, IMAGELENGTH = 2\<rparr>
     = Inr (DecodeUncompressed 8 2 2 0)"
  by (simp add: declared_truncated_def decodeRawInternal_def Let_def getU32_def stripSize_def isValid_def)

theorem decodeRawInternal_size_wraps_witness:
  "decodeRawInternal 1000 False
     \<lparr>COMPRESSION = 1, STRIPOFFSETS = [8, 0x80000008], STRIPBYTECOUNTS = [0x80000000, 0x80000000],
      IMAGEWIDTH = 2, IMAGELENGTH = 2\<rparr>
     = Inr (DecodeUncompressed 8 2 2 0)"
  by (rule conjunct2 [OF decodeRawInternal_size_wraps])

end
